theory Spec2Isabelle
  imports Main "HOL-Library.Word"
begin

section \<open>Common types (Types.h)\<close>

text \<open>
  \<^verbatim>\<open>OrderId\<close> is \<^verbatim>\<open>std::uint64_t\<close>: a 64-bit word, only ever compared for equality.
  \<^verbatim>\<open>Price\<close> and \<^verbatim>\<open>Qty\<close> are \<^verbatim>\<open>std::int64_t\<close>. Prices are only compared, never
  computed with. The only arithmetic on quantities is the subtraction of
  \<^verbatim>\<open>std::min(order.qty, resting.qty)\<close> from both operands, inside a loop guarded by
  \<^verbatim>\<open>order.qty > 0\<close>; from positive operands the results stay between 0 and the
  operand (lemma \<open>match_level_qty_bounds\<close> below), so no 64-bit overflow can occur and
  the quantities are modelled as mathematical integers. \<^verbatim>\<open>TimePoint\<close> is a tick count
  of the steady clock; it is stored and copied, never read.
\<close>

type_synonym OrderId = "64 word"
type_synonym Price = int
type_synonym Qty = int
type_synonym TimePoint = int

datatype Side = Buy | Sell

record Order =
  order_id :: OrderId
  order_side :: Side
  order_price :: Price
  order_qty :: Qty
  order_ts :: TimePoint

record Trade =
  maker_id :: OrderId
  taker_id :: OrderId
  trade_price :: Price
  trade_qty :: Qty

section \<open>The order book (OrderBook.h)\<close>

text \<open>
  A \<^verbatim>\<open>std::map<Price, std::deque<Order>, Compare>\<close> is modelled as the list of its
  entries in iteration order: \<^verbatim>\<open>begin()\<close> is the head of the list. The comparator is a
  parameter: \<open>(<)\<close> for \<^verbatim>\<open>AskLevels\<close> (lowest ask first) and \<open>(>)\<close> for
  \<^verbatim>\<open>BidLevels\<close> (\<^verbatim>\<open>std::greater<>\<close>, highest bid first). The
  \<^verbatim>\<open>std::unordered_map\<close> \<^verbatim>\<open>id_index_\<close> is a partial map.
\<close>

type_synonym Levels = "(Price \<times> Order list) list"
type_synonym Compare = "Price \<Rightarrow> Price \<Rightarrow> bool"
type_synonym IdIndex = "OrderId \<rightharpoonup> Side \<times> Price"

record OrderBook =
  bids :: Levels
  asks :: Levels
  id_index :: IdIndex

definition empty_book :: OrderBook where
  "empty_book = \<lparr>bids = [], asks = [], id_index = Map.empty\<rparr>"

text \<open>
  \<^verbatim>\<open>levels[order.price].push_back(order)\<close>: \<^verbatim>\<open>operator[]\<close> finds the entry whose key
  is equivalent to the price under the comparator, or inserts an empty deque at the
  position the comparator gives.
\<close>

fun level_push_back :: "Compare \<Rightarrow> Order \<Rightarrow> Levels \<Rightarrow> Levels" where
  "level_push_back cmp ord [] = [(order_price ord, [ord])]"
| "level_push_back cmp ord ((px, queue) # rest) =
     (if cmp (order_price ord) px then (order_price ord, [ord]) # (px, queue) # rest
      else if cmp px (order_price ord) then (px, queue) # level_push_back cmp ord rest
      else (px, queue @ [ord]) # rest)"

definition enqueue :: "Order \<Rightarrow> OrderBook \<Rightarrow> OrderBook" where
  "enqueue ord b =
     (if order_side ord = Buy
      then b\<lparr>bids := level_push_back (>) ord (bids b)\<rparr>
      else b\<lparr>asks := level_push_back (<) ord (asks b)\<rparr>)
     \<lparr>id_index := (id_index b)(order_id ord \<mapsto> (order_side ord, order_price ord))\<rparr>"

text \<open>
  The inner loop of \<^verbatim>\<open>add_order\<close>, over the FIFO queue of one level:
  \<^verbatim>\<open>while (order.qty > 0 && !queue.empty())\<close>. It returns the incoming order, the queue
  and the index as the loop leaves them, and the trades it pushed, in order.
\<close>

fun match_level :: "Order \<Rightarrow> Order list \<Rightarrow> IdIndex \<Rightarrow> Order \<times> Order list \<times> IdIndex \<times> Trade list" where
  "match_level ord [] idx = (ord, [], idx, [])"
| "match_level ord (resting # queue) idx =
     (if order_qty ord > 0 then
        (let traded = min (order_qty ord) (order_qty resting);
             t = \<lparr>maker_id = order_id resting, taker_id = order_id ord,
                  trade_price = order_price resting, trade_qty = traded\<rparr>;
             ord' = ord\<lparr>order_qty := order_qty ord - traded\<rparr>;
             resting' = resting\<lparr>order_qty := order_qty resting - traded\<rparr>
         in if order_qty resting' = 0 then
              (case match_level ord' queue (idx(order_id resting := None)) of
                 (ord'', queue', idx', ts) \<Rightarrow> (ord'', queue', idx', t # ts))
            else (ord', resting' # queue, idx, [t]))
      else (ord, resting # queue, idx, []))"

lemma match_level_stops:
  "match_level ord queue idx = (ord', queue', idx', ts) \<Longrightarrow> queue' \<noteq> [] \<Longrightarrow> order_qty ord' \<le> 0"
  by (induction queue arbitrary: ord idx ord' queue' idx' ts)
     (auto simp: Let_def split: if_splits prod.splits)

text \<open>
  The outer loop of \<^verbatim>\<open>add_order\<close>, over the levels of the opposite side, best first:
  \<^verbatim>\<open>while (order.qty > 0 && !levels.empty())\<close>. The \<^verbatim>\<open>break\<close> test is
  \<^verbatim>\<open>order.price < best_px\<close> against the asks and \<^verbatim>\<open>order.price > best_px\<close> against the
  bids: in both branches it is the comparator of the map being crossed, applied to the
  order's price and the best price. A level is erased only when its queue is empty; when
  it is not, the loop tests its condition again on the same level.
\<close>

function cross :: "Compare \<Rightarrow> Order \<Rightarrow> Levels \<Rightarrow> IdIndex \<Rightarrow> Order \<times> Levels \<times> IdIndex \<times> Trade list" where
  "cross cmp ord [] idx = (ord, [], idx, [])"
| "cross cmp ord ((best_px, queue) # rest) idx =
     (if order_qty ord > 0 then
        (if cmp (order_price ord) best_px then (ord, (best_px, queue) # rest, idx, [])
         else
           (case match_level ord queue idx of
              (ord', queue', idx', ts) \<Rightarrow>
                (case (if queue' = [] then cross cmp ord' rest idx'
                       else cross cmp ord' ((best_px, queue') # rest) idx') of
                   (ord'', levels', idx'', ts') \<Rightarrow> (ord'', levels', idx'', ts @ ts'))))
      else (ord, (best_px, queue) # rest, idx, []))"
  by pat_completeness auto
termination
  apply (relation "measure (\<lambda>(cmp, ord, levels, idx). 2 * length levels + (if order_qty ord > 0 then 1 else 0))")
   apply simp
  apply (auto dest: match_level_stops [OF sym])
  done

text \<open>
  \<^verbatim>\<open>add_order\<close>: a Buy crosses the asks, a Sell crosses the bids; what is left of the
  order, if positive, is enqueued. The result is the vector of trades and the book.
\<close>

definition add_order :: "Order \<Rightarrow> OrderBook \<Rightarrow> Trade list \<times> OrderBook" where
  "add_order order b =
     (if order_side order = Buy then
        (case cross (<) order (asks b) (id_index b) of
           (order', asks', idx', trades) \<Rightarrow>
             (let b' = b\<lparr>asks := asks', id_index := idx'\<rparr>
              in (trades, if order_qty order' > 0 then enqueue order' b' else b')))
      else
        (case cross (>) order (bids b) (id_index b) of
           (order', bids', idx', trades) \<Rightarrow>
             (let b' = b\<lparr>bids := bids', id_index := idx'\<rparr>
              in (trades, if order_qty order' > 0 then enqueue order' b' else b'))))"

text \<open>
  \<^verbatim>\<open>cancel\<close>. The scan \<^verbatim>\<open>for (itq = dq.begin(); ...)\<close> erases the first order of the
  queue with the id; \<open>None\<close> when the loop ends without finding one.
\<close>

fun erase_id :: "OrderId \<Rightarrow> Order list \<Rightarrow> Order list option" where
  "erase_id i [] = None"
| "erase_id i (x # dq) =
     (if order_id x = i then Some dq else map_option ((#) x) (erase_id i dq))"

text \<open>
  \<^verbatim>\<open>levels.find(price)\<close>, the scan of that level's queue, and \<^verbatim>\<open>levels.erase(lvl)\<close>
  when the queue has become empty. \<open>None\<close> is both \<^verbatim>\<open>lvl == levels.end()\<close> and the scan
  that finds nothing: \<^verbatim>\<open>cancel\<close> returns false in both and has changed nothing.
\<close>

fun cancel_level :: "OrderId \<Rightarrow> Price \<Rightarrow> Levels \<Rightarrow> Levels option" where
  "cancel_level i price [] = None"
| "cancel_level i price ((px, dq) # rest) =
     (if px = price then
        (case erase_id i dq of
           None \<Rightarrow> None
         | Some dq' \<Rightarrow> Some (if dq' = [] then rest else (px, dq') # rest))
      else map_option ((#) (px, dq)) (cancel_level i price rest))"

definition cancel :: "OrderId \<Rightarrow> OrderBook \<Rightarrow> bool \<times> OrderBook" where
  "cancel i b =
     (case id_index b i of
        None \<Rightarrow> (False, b)
      | Some (side, price) \<Rightarrow>
          (if side = Buy then
             (case cancel_level i price (bids b) of
                None \<Rightarrow> (False, b)
              | Some bids' \<Rightarrow> (True, b\<lparr>bids := bids', id_index := (id_index b)(i := None)\<rparr>))
           else
             (case cancel_level i price (asks b) of
                None \<Rightarrow> (False, b)
              | Some asks' \<Rightarrow> (True, b\<lparr>asks := asks', id_index := (id_index b)(i := None)\<rparr>))))"

definition best_bid :: "OrderBook \<Rightarrow> Price option" where
  "best_bid b = (case bids b of [] \<Rightarrow> None | (px, queue) # rest \<Rightarrow> Some px)"

definition best_ask :: "OrderBook \<Rightarrow> Price option" where
  "best_ask b = (case asks b of [] \<Rightarrow> None | (px, queue) # rest \<Rightarrow> Some px)"

section \<open>Sequences of calls\<close>

text \<open>
  The demos build orders with a lambda \<^verbatim>\<open>mk\<close>; here the timestamp is a parameter.
\<close>

definition mk :: "TimePoint \<Rightarrow> OrderId \<Rightarrow> Side \<Rightarrow> Price \<Rightarrow> Qty \<Rightarrow> Order" where
  "mk now i s p q = \<lparr>order_id = i, order_side = s, order_price = p, order_qty = q, order_ts = now\<rparr>"

text \<open>
  A client of the book calls its two mutating operations one after the other. \<open>run\<close>
  performs the calls in order and collects what each returned.
\<close>

datatype Op = Add Order | Cancel OrderId

datatype Result = Trades "Trade list" | Cancelled bool

fun apply_op :: "Op \<Rightarrow> OrderBook \<Rightarrow> Result \<times> OrderBook" where
  "apply_op (Add ord) b = (case add_order ord b of (trades, b') \<Rightarrow> (Trades trades, b'))"
| "apply_op (Cancel i) b = (case cancel i b of (r, b') \<Rightarrow> (Cancelled r, b'))"

fun run :: "Op list \<Rightarrow> OrderBook \<Rightarrow> Result list \<times> OrderBook" where
  "run [] b = ([], b)"
| "run (op # ops) b =
     (case apply_op op b of
        (r, b') \<Rightarrow> (case run ops b' of (rs, b'') \<Rightarrow> (r # rs, b'')))"

section \<open>The crossing loops\<close>

text \<open>
  \<open>strip\<close> forgets the remaining quantity of an order, the only field the book ever
  changes; \<open>level_orders\<close> lists the resting orders of one side in priority order.
\<close>

definition strip :: "Order \<Rightarrow> Order" where
  "strip ord = ord\<lparr>order_qty := 0\<rparr>"

definition level_orders :: "Levels \<Rightarrow> Order list" where
  "level_orders levels = concat (map snd levels)"

lemma match_level_cons:
  "match_level ord (resting # queue) idx =
     (if order_qty ord \<le> 0 then (ord, resting # queue, idx, [])
      else if order_qty resting \<le> order_qty ord then
        (case match_level (ord\<lparr>order_qty := order_qty ord - order_qty resting\<rparr>) queue
                (idx(order_id resting := None)) of
           (ord'', queue', idx', ts) \<Rightarrow>
             (ord'', queue', idx',
              \<lparr>maker_id = order_id resting, taker_id = order_id ord,
               trade_price = order_price resting, trade_qty = order_qty resting\<rparr> # ts))
      else (ord\<lparr>order_qty := 0\<rparr>,
            resting\<lparr>order_qty := order_qty resting - order_qty ord\<rparr> # queue, idx,
            [\<lparr>maker_id = order_id resting, taker_id = order_id ord,
              trade_price = order_price resting, trade_qty = order_qty ord\<rparr>]))"
  by (simp add: Let_def min_def)

lemmas match_level_unfold = match_level.simps(1) match_level_cons

lemma match_level_order:
  "match_level ord queue idx = (ord', queue', idx', ts) \<Longrightarrow>
   order_id ord' = order_id ord \<and> order_side ord' = order_side ord \<and>
   order_price ord' = order_price ord \<and> order_ts ord' = order_ts ord"
  by (induction queue arbitrary: ord idx ord' queue' idx' ts)
     (fastforce simp: match_level_cons simp del: match_level.simps(2) split: if_splits prod.splits)+

lemma match_level_shape:
  "match_level ord queue idx = (ord', queue', idx', ts) \<Longrightarrow>
   \<exists>k\<le>length queue. map strip queue' = drop k (map strip queue)
      \<and> idx' = idx |` (- set (take k (map order_id queue)))"
proof (induction queue arbitrary: ord idx ord' queue' idx' ts)
  case Nil
  then show ?case by simp
next
  case (Cons resting queue)
  consider (stop) "order_qty ord \<le> 0"
    | (fill) "order_qty ord > 0" "order_qty resting \<le> order_qty ord"
    | (part) "order_qty ord > 0" "order_qty resting > order_qty ord"
    by linarith
  then show ?case
  proof cases
    case stop
    with Cons.prems have "queue' = resting # queue" "idx' = idx"
      by (auto simp: match_level_cons simp del: match_level.simps(2))
    then show ?thesis by (intro exI [of _ 0]) simp
  next
    case part
    with Cons.prems have "queue' = resting\<lparr>order_qty := order_qty resting - order_qty ord\<rparr> # queue" "idx' = idx"
      by (auto simp: match_level_cons simp del: match_level.simps(2))
    then show ?thesis by (intro exI [of _ 0]) (simp add: strip_def)
  next
    case fill
    with Cons.prems obtain ord1 ts1 where
      rec: "match_level (ord\<lparr>order_qty := order_qty ord - order_qty resting\<rparr>) queue
              (idx(order_id resting := None)) = (ord1, queue', idx', ts1)"
      by (auto simp: match_level_cons simp del: match_level.simps(2) split: prod.splits)
    from Cons.IH [OF rec] obtain k where k: "k \<le> length queue"
      "map strip queue' = drop k (map strip queue)"
      "idx' = (idx(order_id resting := None)) |` (- set (take k (map order_id queue)))"
      by blast
    have "idx' = idx |` (- set (take (Suc k) (map order_id (resting # queue))))"
      unfolding k(3) by (auto simp: restrict_map_def fun_eq_iff)
    with k(1,2) show ?thesis by (intro exI [of _ "Suc k"]) simp
  qed
qed

lemma match_level_positive:
  "match_level ord queue idx = (ord', queue', idx', ts) \<Longrightarrow>
   \<forall>r\<in>set queue. order_qty r > 0 \<Longrightarrow> \<forall>r\<in>set queue'. order_qty r > 0"
  by (induction queue arbitrary: ord idx ord' queue' idx' ts)
     (fastforce simp: match_level_cons simp del: match_level.simps(2) split: if_splits prod.splits)+

lemma match_level_conserves:
  "match_level ord queue idx = (ord', queue', idx', ts) \<Longrightarrow>
   order_qty ord + sum_list (map order_qty queue)
     = order_qty ord' + sum_list (map order_qty queue') + 2 * sum_list (map trade_qty ts)"
  by (induction queue arbitrary: ord idx ord' queue' idx' ts)
     (fastforce simp: match_level_cons simp del: match_level.simps(2) split: if_splits prod.splits)+

lemma match_level_trades:
  "match_level ord queue idx = (ord', queue', idx', ts) \<Longrightarrow> t \<in> set ts \<Longrightarrow>
   taker_id t = order_id ord \<and>
   (\<exists>m\<in>set queue. maker_id t = order_id m \<and> trade_price t = order_price m
       \<and> (order_qty m > 0 \<longrightarrow> trade_qty t > 0))"
  by (induction queue arbitrary: ord idx ord' queue' idx' ts)
     (fastforce simp: match_level_cons simp del: match_level.simps(2) split: if_splits prod.splits)+

lemma match_level_makers:
  "match_level ord queue idx = (ord', queue', idx', ts) \<Longrightarrow>
   map maker_id ts = take (length ts) (map order_id queue)"
  by (induction queue arbitrary: ord idx ord' queue' idx' ts)
     (fastforce simp: match_level_cons simp del: match_level.simps(2) split: if_splits prod.splits)+

lemma match_level_qty_bounds:
  "match_level ord queue idx = (ord', queue', idx', ts) \<Longrightarrow>
   \<forall>r\<in>set queue. order_qty r > 0 \<Longrightarrow> 0 \<le> order_qty ord \<Longrightarrow>
   0 \<le> order_qty ord' \<and> order_qty ord' \<le> order_qty ord"
  by (induction queue arbitrary: ord idx ord' queue' idx' ts)
     (fastforce simp: match_level_cons simp del: match_level.simps(2) split: if_splits prod.splits)+


lemma match_level_resting:
  "match_level ord queue idx = (ord', queue', idx', ts) \<Longrightarrow> r' \<in> set queue' \<Longrightarrow>
   \<exists>r\<in>set queue. strip r' = strip r"
proof -
  assume m: "match_level ord queue idx = (ord', queue', idx', ts)" and r': "r' \<in> set queue'"
  from match_level_shape [OF m] obtain k where "map strip queue' = drop k (map strip queue)"
    by blast
  moreover from r' have "strip r' \<in> set (map strip queue')" by simp
  ultimately have "strip r' \<in> set (map strip queue)" by (metis in_set_dropD)
  then show ?thesis by auto
qed

lemma match_level_all_filled:
  "match_level ord queue idx = (ord', [], idx', ts) \<Longrightarrow> map maker_id ts = map order_id queue"
  by (induction queue arbitrary: ord idx ord' idx' ts)
     (fastforce simp: match_level_cons simp del: match_level.simps(2) split: if_splits prod.splits)+

lemma cross_cons:
  "cross cmp ord ((best_px, queue) # rest) idx =
     (if order_qty ord > 0 \<and> \<not> cmp (order_price ord) best_px then
        (case match_level ord queue idx of
           (ord', queue', idx', ts) \<Rightarrow>
             if queue' = [] then
               (case cross cmp ord' rest idx' of
                  (ord'', levels', idx'', ts') \<Rightarrow> (ord'', levels', idx'', ts @ ts'))
             else (ord', (best_px, queue') # rest, idx', ts))
      else (ord, (best_px, queue) # rest, idx, []))"
proof (cases "order_qty ord > 0 \<and> \<not> cmp (order_price ord) best_px")
  case False
  then show ?thesis by auto
next
  case True
  obtain ord' queue' idx' ts where m: "match_level ord queue idx = (ord', queue', idx', ts)"
    by (cases "match_level ord queue idx") auto
  show ?thesis
  proof (cases "queue' = []")
    case True
    with m \<open>order_qty ord > 0 \<and> \<not> cmp (order_price ord) best_px\<close> show ?thesis by simp
  next
    case False
    from match_level_stops [OF m False] obtain q qs where "order_qty ord' \<le> 0" "queue' = q # qs"
      using False by (cases queue') auto
    with m True show ?thesis by simp
  qed
qed

declare cross.simps(2) [simp del]

lemma cross_order:
  "cross cmp ord levels idx = (ord', levels', idx', ts) \<Longrightarrow>
   order_id ord' = order_id ord \<and> order_side ord' = order_side ord \<and>
   order_price ord' = order_price ord \<and> order_ts ord' = order_ts ord"
proof (induction levels arbitrary: ord idx ord' levels' idx' ts)
  case Nil
  then show ?case by simp
next
  case (Cons lvl rest)
  obtain px queue where lvl: "lvl = (px, queue)" by (cases lvl)
  from Cons.prems show ?case
    unfolding lvl cross_cons
    by (auto split: if_splits prod.splits dest!: match_level_order Cons.IH)
qed

lemma cross_keys:
  "cross cmp ord levels idx = (ord', levels', idx', ts) \<Longrightarrow>
   \<exists>k. map fst levels' = drop k (map fst levels)"
proof (induction levels arbitrary: ord idx ord' levels' idx' ts)
  case Nil
  then show ?case by simp
next
  case (Cons lvl rest)
  obtain px queue where lvl: "lvl = (px, queue)" by (cases lvl)
  show ?case
  proof (cases "order_qty ord > 0 \<and> \<not> cmp (order_price ord) px")
    case False
    with Cons.prems have "levels' = lvl # rest" by (auto simp: lvl cross_cons)
    then show ?thesis by (intro exI [of _ 0]) simp
  next
    case True
    obtain ord1 queue1 idx1 ts1 where m: "match_level ord queue idx = (ord1, queue1, idx1, ts1)"
      by (cases "match_level ord queue idx") auto
    show ?thesis
    proof (cases "queue1 = []")
      case False
      with True m Cons.prems have "levels' = (px, queue1) # rest" by (auto simp: lvl cross_cons)
      then show ?thesis by (intro exI [of _ 0]) (simp add: lvl)
    next
      case e: True
      with True m Cons.prems obtain ts2 where "cross cmp ord1 rest idx1 = (ord', levels', idx', ts2)"
        by (auto simp: lvl cross_cons split: prod.splits)
      from Cons.IH [OF this] obtain k where "map fst levels' = drop k (map fst rest)" by blast
      then show ?thesis by (intro exI [of _ "Suc k"]) simp
    qed
  qed
qed

lemma cross_stop:
  "cross cmp ord levels idx = (ord', levels', idx', ts) \<Longrightarrow> order_qty ord' > 0 \<Longrightarrow>
   levels' = [] \<or> cmp (order_price ord) (fst (hd levels'))"
proof (induction levels arbitrary: ord idx ord' levels' idx' ts)
  case Nil
  then show ?case by simp
next
  case (Cons lvl rest)
  obtain px queue where lvl: "lvl = (px, queue)" by (cases lvl)
  show ?case
  proof (cases "order_qty ord > 0 \<and> \<not> cmp (order_price ord) px")
    case False
    with Cons.prems show ?thesis by (auto simp: lvl cross_cons)
  next
    case True
    obtain ord1 queue1 idx1 ts1 where m: "match_level ord queue idx = (ord1, queue1, idx1, ts1)"
      by (cases "match_level ord queue idx") auto
    show ?thesis
    proof (cases "queue1 = []")
      case False
      with True m Cons.prems match_level_stops [OF m False] show ?thesis
        by (auto simp: lvl cross_cons)
    next
      case e: True
      with True m Cons.prems obtain ts2 where "cross cmp ord1 rest idx1 = (ord', levels', idx', ts2)"
        by (auto simp: lvl cross_cons split: prod.splits)
      from Cons.IH [OF this Cons.prems(2)] match_level_order [OF m] show ?thesis by simp
    qed
  qed
qed


lemma cross_induct [consumes 1, case_names Nil Stop Partial Full]:
  assumes "cross cmp ord levels idx = (ord', levels', idx', ts)"
    and "\<And>ord idx. P ord [] idx ord [] idx []"
    and "\<And>ord px queue rest idx.
           \<not> (order_qty ord > 0 \<and> \<not> cmp (order_price ord) px) \<Longrightarrow>
           P ord ((px, queue) # rest) idx ord ((px, queue) # rest) idx []"
    and "\<And>ord px queue rest idx ord1 queue1 idx1 ts1.
           order_qty ord > 0 \<Longrightarrow> \<not> cmp (order_price ord) px \<Longrightarrow>
           match_level ord queue idx = (ord1, queue1, idx1, ts1) \<Longrightarrow>
           queue1 \<noteq> [] \<Longrightarrow> order_qty ord1 \<le> 0 \<Longrightarrow>
           P ord ((px, queue) # rest) idx ord1 ((px, queue1) # rest) idx1 ts1"
    and "\<And>ord px queue rest idx ord1 idx1 ts1 ord2 levels2 idx2 ts2.
           order_qty ord > 0 \<Longrightarrow> \<not> cmp (order_price ord) px \<Longrightarrow>
           match_level ord queue idx = (ord1, [], idx1, ts1) \<Longrightarrow>
           cross cmp ord1 rest idx1 = (ord2, levels2, idx2, ts2) \<Longrightarrow>
           P ord1 rest idx1 ord2 levels2 idx2 ts2 \<Longrightarrow>
           P ord ((px, queue) # rest) idx ord2 levels2 idx2 (ts1 @ ts2)"
  shows "P ord levels idx ord' levels' idx' ts"
  using assms(1)
proof (induction levels arbitrary: ord idx ord' levels' idx' ts)
  case Nil
  then show ?case using assms(2) by simp
next
  case (Cons lvl rest)
  obtain px queue where lvl: "lvl = (px, queue)" by (cases lvl)
  show ?case
  proof (cases "order_qty ord > 0 \<and> \<not> cmp (order_price ord) px")
    case False
    with Cons.prems assms(3) [OF False, of queue rest idx] show ?thesis
      by (auto simp: lvl cross_cons)
  next
    case True
    obtain ord1 queue1 idx1 ts1 where m: "match_level ord queue idx = (ord1, queue1, idx1, ts1)"
      by (cases "match_level ord queue idx") auto
    show ?thesis
    proof (cases "queue1 = []")
      case False
      from True m False match_level_stops [OF m False]
      have "P ord ((px, queue) # rest) idx ord1 ((px, queue1) # rest) idx1 ts1"
        by (intro assms(4)) auto
      with True m False Cons.prems show ?thesis by (auto simp: lvl cross_cons)
    next
      case e: True
      with True m Cons.prems obtain ts2 where c: "cross cmp ord1 rest idx1 = (ord', levels', idx', ts2)"
        and ts: "ts = ts1 @ ts2"
        by (auto simp: lvl cross_cons split: prod.splits)
      from True m e c Cons.IH [OF c]
      have "P ord ((px, queue) # rest) idx ord' levels' idx' (ts1 @ ts2)"
        by (intro assms(5)) auto
      then show ?thesis by (simp add: lvl ts)
    qed
  qed
qed

lemma cross_shape:
  "cross cmp ord levels idx = (ord', levels', idx', ts) \<Longrightarrow>
   \<exists>k\<le>length (level_orders levels).
      map strip (level_orders levels') = drop k (map strip (level_orders levels))
      \<and> idx' = idx |` (- set (take k (map order_id (level_orders levels))))"
proof (induction rule: cross_induct)
  case (Nil ord idx)
  then show ?case by (simp add: level_orders_def)
next
  case (Stop ord px queue rest idx)
  then show ?case by (intro exI [of _ 0]) simp
next
  case (Partial ord px queue rest idx ord1 queue1 idx1 ts1)
  from match_level_shape [OF Partial(3)] obtain k where k: "k \<le> length queue"
    "map strip queue1 = drop k (map strip queue)"
    "idx1 = idx |` (- set (take k (map order_id queue)))"
    by blast
  then show ?case by (intro exI [of _ k]) (simp add: level_orders_def)
next
  case (Full ord px queue rest idx ord1 idx1 ts1 ord2 levels2 idx2 ts2)
  from match_level_shape [OF Full(3)]
  have idx1: "idx1 = idx |` (- set (map order_id queue))"
    by auto
  from Full(5) obtain k where k: "k \<le> length (level_orders rest)"
    "map strip (level_orders levels2) = drop k (map strip (level_orders rest))"
    "idx2 = idx1 |` (- set (take k (map order_id (level_orders rest))))"
    by blast
  have "idx2 = idx |` (- set (take (length queue + k) (map order_id (level_orders ((px, queue) # rest)))))"
    unfolding k(3) idx1 by (auto simp: level_orders_def restrict_map_def fun_eq_iff)
  with k(1,2) show ?case
    by (intro exI [of _ "length queue + k"]) (simp add: level_orders_def)
qed

lemma cross_conserves:
  "cross cmp ord levels idx = (ord', levels', idx', ts) \<Longrightarrow>
   order_qty ord + sum_list (map order_qty (level_orders levels))
     = order_qty ord' + sum_list (map order_qty (level_orders levels'))
       + 2 * sum_list (map trade_qty ts)"
proof (induction rule: cross_induct)
  case (Partial ord px queue rest idx ord1 queue1 idx1 ts1)
  from match_level_conserves [OF Partial(3)] show ?case by (simp add: level_orders_def)
next
  case (Full ord px queue rest idx ord1 idx1 ts1 ord2 levels2 idx2 ts2)
  from match_level_conserves [OF Full(3)] Full(5) show ?case by (simp add: level_orders_def)
qed simp_all

lemma level_orders_simps [simp]:
  "level_orders [] = []"
  "level_orders ((px, queue) # rest) = queue @ level_orders rest"
  by (simp_all add: level_orders_def)

lemma cross_trades:
  "cross cmp ord levels idx = (ord', levels', idx', ts) \<Longrightarrow> t \<in> set ts \<Longrightarrow>
   taker_id t = order_id ord \<and>
   (\<exists>m\<in>set (level_orders levels). maker_id t = order_id m \<and> trade_price t = order_price m
       \<and> (order_qty m > 0 \<longrightarrow> trade_qty t > 0))"
proof (induction rule: cross_induct)
  case (Nil ord idx)
  then show ?case by simp
next
  case (Stop ord px queue rest idx)
  then show ?case by simp
next
  case (Partial ord px queue rest idx ord1 queue1 idx1 ts1)
  from match_level_trades [OF Partial(3) Partial(6)] obtain m where
    "taker_id t = order_id ord" "m \<in> set queue" "maker_id t = order_id m"
    "trade_price t = order_price m" "order_qty m > 0 \<longrightarrow> trade_qty t > 0"
    by blast
  then show ?case by (intro conjI bexI [of _ m]) simp_all
next
  case (Full ord px queue rest idx ord1 idx1 ts1 ord2 levels2 idx2 ts2)
  from Full(6) consider "t \<in> set ts1" | "t \<in> set ts2" by auto
  then show ?case
  proof cases
    case 1
    from match_level_trades [OF Full(3) 1] obtain m where
      "taker_id t = order_id ord" "m \<in> set queue" "maker_id t = order_id m"
      "trade_price t = order_price m" "order_qty m > 0 \<longrightarrow> trade_qty t > 0"
      by blast
    then show ?thesis by (intro conjI bexI [of _ m]) simp_all
  next
    case 2
    from Full(5) [OF 2] obtain m where
      "taker_id t = order_id ord1" "m \<in> set (level_orders rest)" "maker_id t = order_id m"
      "trade_price t = order_price m" "order_qty m > 0 \<longrightarrow> trade_qty t > 0"
      by blast
    with match_level_order [OF Full(3)] show ?thesis by (intro conjI bexI [of _ m]) simp_all
  qed
qed

lemma match_level_makers_length:
  "match_level ord queue idx = (ord', queue', idx', ts) \<Longrightarrow> length ts \<le> length queue"
  by (induction queue arbitrary: ord idx ord' queue' idx' ts)
     (fastforce simp: match_level_cons simp del: match_level.simps(2) split: if_splits prod.splits)+

lemma cross_makers:
  "cross cmp ord levels idx = (ord', levels', idx', ts) \<Longrightarrow>
   map maker_id ts = take (length ts) (map order_id (level_orders levels))"
proof (induction rule: cross_induct)
  case (Nil ord idx)
  then show ?case by simp
next
  case (Stop ord px queue rest idx)
  then show ?case by simp
next
  case (Partial ord px queue rest idx ord1 queue1 idx1 ts1)
  from match_level_makers [OF Partial(3)] match_level_makers_length [OF Partial(3)]
  show ?case by simp
next
  case (Full ord px queue rest idx ord1 idx1 ts1 ord2 levels2 idx2 ts2)
  from match_level_all_filled [OF Full(3)] have eq: "map maker_id ts1 = map order_id queue" .
  then have "length ts1 = length queue" by (rule map_eq_imp_length_eq)
  with eq Full(5) show ?case by simp
qed

section \<open>Invariants of the book\<close>

text \<open>
  A level of side \<open>s\<close> is well formed when its queue is not empty and every order in it
  has a positive remaining quantity, the level's price and the side \<open>s\<close>.
\<close>

definition level_ok :: "Side \<Rightarrow> Price \<times> Order list \<Rightarrow> bool" where
  "level_ok s lvl \<longleftrightarrow>
     snd lvl \<noteq> [] \<and>
     (\<forall>r\<in>set (snd lvl). order_qty r > 0 \<and> order_price r = fst lvl \<and> order_side r = s)"

text \<open>
  The index agrees with a list of resting orders: their ids are distinct, each is
  indexed under its own side and price, and nothing else is indexed.
\<close>

definition index_ok :: "IdIndex \<Rightarrow> Order list \<Rightarrow> bool" where
  "index_ok idx rs \<longleftrightarrow>
     distinct (map order_id rs) \<and>
     (\<forall>r\<in>set rs. idx (order_id r) = Some (order_side r, order_price r)) \<and>
     dom idx \<subseteq> order_id ` set rs"

definition resting :: "OrderBook \<Rightarrow> Order list" where
  "resting b = level_orders (bids b) @ level_orders (asks b)"

definition book_inv :: "OrderBook \<Rightarrow> bool" where
  "book_inv b \<longleftrightarrow>
     sorted_wrt (>) (map fst (bids b)) \<and> sorted_wrt (<) (map fst (asks b)) \<and>
     list_all (level_ok Buy) (bids b) \<and> list_all (level_ok Sell) (asks b) \<and>
     index_ok (id_index b) (resting b) \<and>
     (\<forall>pb\<in>set (map fst (bids b)). \<forall>pa\<in>set (map fst (asks b)). pb < pa)"

lemma strip_eq_iff:
  "strip r = strip r' \<longleftrightarrow>
   order_id r = order_id r' \<and> order_side r = order_side r' \<and>
   order_price r = order_price r' \<and> order_ts r = order_ts r'"
  by (cases r; cases r') (auto simp: strip_def)

lemma order_id_strip [simp]: "order_id (strip r) = order_id r"
  by (simp add: strip_def)

lemma order_id_comp_strip: "order_id \<circ> strip = order_id"
  by (simp add: fun_eq_iff)

lemma cross_levels_ok:
  "cross cmp ord levels idx = (ord', levels', idx', ts) \<Longrightarrow>
   list_all (level_ok s) levels \<Longrightarrow> list_all (level_ok s) levels'"
proof (induction rule: cross_induct)
  case (Partial ord px queue rest idx ord1 queue1 idx1 ts1)
  from Partial(6) have "level_ok s (px, queue)" and rest: "list_all (level_ok s) rest"
    by simp_all
  then have q: "\<forall>r\<in>set queue. order_qty r > 0 \<and> order_price r = px \<and> order_side r = s"
    by (simp add: level_ok_def)
  have "order_qty r' > 0 \<and> order_price r' = px \<and> order_side r' = s" if "r' \<in> set queue1" for r'
  proof -
    from match_level_resting [OF Partial(3) that] obtain r where "r \<in> set queue" "strip r' = strip r"
      by blast
    with q match_level_positive [OF Partial(3)] that show ?thesis
      by (auto simp: strip_eq_iff)
  qed
  with Partial(4) have "level_ok s (px, queue1)" by (simp add: level_ok_def)
  with rest show ?case by simp
qed simp_all

lemma cross_qty_bounds:
  "cross cmp ord levels idx = (ord', levels', idx', ts) \<Longrightarrow>
   list_all (level_ok s) levels \<Longrightarrow> 0 \<le> order_qty ord \<Longrightarrow>
   0 \<le> order_qty ord' \<and> order_qty ord' \<le> order_qty ord"
proof (induction rule: cross_induct)
  case (Partial ord px queue rest idx ord1 queue1 idx1 ts1)
  from Partial(6) have "level_ok s (px, queue)" by simp
  then have "\<forall>r\<in>set queue. order_qty r > 0" by (simp add: level_ok_def)
  from match_level_qty_bounds [OF Partial(3) this Partial(7)] show ?case .
next
  case (Full ord px queue rest idx ord1 idx1 ts1 ord2 levels2 idx2 ts2)
  from Full(6) have "level_ok s (px, queue)" and rest: "list_all (level_ok s) rest" by simp_all
  then have "\<forall>r\<in>set queue. order_qty r > 0" by (simp add: level_ok_def)
  from match_level_qty_bounds [OF Full(3) this Full(7)] Full(5) [OF rest]
  show ?case by simp
qed simp_all

lemma cross_sorted:
  "cross cmp ord levels idx = (ord', levels', idx', ts) \<Longrightarrow>
   sorted_wrt cmp (map fst levels) \<Longrightarrow> sorted_wrt cmp (map fst levels')"
  by (drule cross_keys) (auto simp: sorted_wrt_drop)

lemma cross_keys_subset:
  "cross cmp ord levels idx = (ord', levels', idx', ts) \<Longrightarrow>
   set (map fst levels') \<subseteq> set (map fst levels)"
  by (drule cross_keys) (metis set_drop_subset)

lemma index_ok_commute: "index_ok idx (xs @ ys) \<longleftrightarrow> index_ok idx (ys @ xs)"
  by (auto simp: index_ok_def)

lemma cross_index_ok:
  assumes c: "cross cmp ord levels idx = (ord', levels', idx', ts)"
    and ok: "index_ok idx (own @ level_orders levels)"
  shows "index_ok idx' (own @ level_orders levels')"
    and "order_id ` set (level_orders levels') \<subseteq> order_id ` set (level_orders levels)"
proof -
  let ?old = "level_orders levels" and ?new = "level_orders levels'"
  from cross_shape [OF c] obtain k where k: "k \<le> length ?old"
    and strip: "map strip ?new = drop k (map strip ?old)"
    and idx': "idx' = idx |` (- set (take k (map order_id ?old)))"
    by blast
  from strip have "map order_id (map strip ?new) = map order_id (drop k (map strip ?old))" by simp
  then have ids: "map order_id ?new = drop k (map order_id ?old)"
    by (simp add: drop_map order_id_comp_strip)
  from ok have d: "distinct (map order_id own @ map order_id ?old)"
    and look: "\<forall>r\<in>set (own @ ?old). idx (order_id r) = Some (order_side r, order_price r)"
    and dom: "dom idx \<subseteq> order_id ` set (own @ ?old)"
    by (simp_all add: index_ok_def)
  have split: "map order_id ?old = take k (map order_id ?old) @ drop k (map order_id ?old)"
    by simp
  from d have d_old: "distinct (take k (map order_id ?old) @ drop k (map order_id ?old))"
    by simp
  then have disj: "set (take k (map order_id ?old)) \<inter> set (drop k (map order_id ?old)) = {}"
    by (simp only: distinct_append) 
  from d have disj_own: "set (map order_id own) \<inter> set (map order_id ?old) = {}"
    by simp
  have sub: "set (drop k (map order_id ?old)) \<subseteq> set (map order_id ?old)"
    by (rule set_drop_subset)
  have tsub: "set (take k (map order_id ?old)) \<subseteq> set (map order_id ?old)"
    by (rule set_take_subset)
  show "order_id ` set ?new \<subseteq> order_id ` set ?old"
    using sub ids by (metis set_map)
  have 1: "distinct (map order_id (own @ ?new))"
    using d sub by (auto simp: ids dest: in_set_dropD)
  have 2: "idx' (order_id r) = Some (order_side r, order_price r)" if "r \<in> set (own @ ?new)" for r
  proof (cases "r \<in> set own")
    case True
    with disj_own tsub have "order_id r \<notin> set (take k (map order_id ?old))" by auto
    with True look show ?thesis by (simp add: idx')
  next
    case False
    with that have r: "r \<in> set ?new" by simp
    then have "order_id r \<in> set (map order_id ?new)" by simp
    with disj have nt: "order_id r \<notin> set (take k (map order_id ?old))" by (auto simp: ids)
    from r have "strip r \<in> set (map strip ?new)" by simp
    then have "strip r \<in> set (map strip ?old)" unfolding strip by (rule in_set_dropD)
    then obtain r0 where "r0 \<in> set ?old" "strip r = strip r0" by auto
    with look have "idx (order_id r) = Some (order_side r, order_price r)"
      by (auto simp: strip_eq_iff)
    with nt show ?thesis by (simp add: idx')
  qed
  have 3: "dom idx' \<subseteq> order_id ` set (own @ ?new)"
  proof
    fix i assume "i \<in> dom idx'"
    then have i: "i \<in> dom idx" "i \<notin> set (take k (map order_id ?old))"
      by (auto simp: idx' restrict_map_def split: if_splits)
    with dom have "i \<in> set (map order_id own) \<or> i \<in> set (map order_id ?old)" by auto
    with i(2) split have "i \<in> set (map order_id own) \<or> i \<in> set (drop k (map order_id ?old))"
      by (metis Un_iff set_append)
    then show "i \<in> order_id ` set (own @ ?new)"
      using ids by (metis Un_iff image_Un set_append set_map)
  qed
  from 1 2 3 show "index_ok idx' (own @ ?new)" by (simp add: index_ok_def)
qed

lemma level_push_back_orders:
  "set (level_orders (level_push_back cmp ord levels)) = insert ord (set (level_orders levels))"
  by (induction levels) (auto split: if_splits)

lemma level_push_back_ids:
  "distinct (map order_id (level_orders (level_push_back cmp ord levels))) \<longleftrightarrow>
   order_id ord \<notin> order_id ` set (level_orders levels) \<and>
   distinct (map order_id (level_orders levels))"
  by (induction levels) (auto simp: level_push_back_orders split: if_splits)

lemma level_push_back_qty:
  "sum_list (map order_qty (level_orders (level_push_back cmp ord levels)))
     = order_qty ord + sum_list (map order_qty (level_orders levels))"
  by (induction levels) (auto split: if_splits)

lemma level_push_back_keys_asks:
  "set (map fst (level_push_back (<) ord levels)) = insert (order_price ord) (set (map fst levels))"
proof (induction levels)
  case Nil
  show ?case by simp
next
  case (Cons lvl rest)
  obtain px queue where lvl: "lvl = (px, queue)" by (cases lvl)
  consider "order_price ord < px" | "px < order_price ord" | "px = order_price ord" by linarith
  then show ?case
  proof cases
    case 1
    then show ?thesis by (simp add: lvl)
  next
    case 2
    with Cons.IH show ?thesis by (simp add: lvl insert_commute)
  next
    case 3
    then show ?thesis by (simp add: lvl)
  qed
qed

lemma level_push_back_keys_bids:
  "set (map fst (level_push_back (>) ord levels)) = insert (order_price ord) (set (map fst levels))"
proof (induction levels)
  case Nil
  show ?case by simp
next
  case (Cons lvl rest)
  obtain px queue where lvl: "lvl = (px, queue)" by (cases lvl)
  consider "order_price ord > px" | "px > order_price ord" | "px = order_price ord" by linarith
  then show ?case
  proof cases
    case 1
    then show ?thesis by (simp add: lvl)
  next
    case 2
    with Cons.IH show ?thesis by (simp add: lvl insert_commute)
  next
    case 3
    then show ?thesis by (simp add: lvl)
  qed
qed

lemma level_push_back_sorted_asks:
  "sorted_wrt (<) (map fst levels) \<Longrightarrow> sorted_wrt (<) (map fst (level_push_back (<) ord levels))"
proof (induction levels)
  case Nil
  then show ?case by simp
next
  case (Cons lvl rest)
  obtain px queue where lvl: "lvl = (px, queue)" by (cases lvl)
  from Cons.prems have above: "\<forall>k\<in>set (map fst rest). px < k" and rest: "sorted_wrt (<) (map fst rest)"
    by (simp_all add: lvl)
  show ?case
  proof (cases "order_price ord < px")
    case True
    with above have "\<forall>k\<in>set (map fst rest). order_price ord < k" by auto
    with True Cons.prems show ?thesis by (simp add: lvl)
  next
    case False
    show ?thesis
    proof (cases "px < order_price ord")
      case True
      with above have "\<forall>k\<in>set (map fst (level_push_back (<) ord rest)). px < k"
        unfolding level_push_back_keys_asks by auto
      with True False Cons.IH [OF rest] show ?thesis by (simp add: lvl)
    next
      case nlt: False
      with False Cons.prems show ?thesis by (simp add: lvl)
    qed
  qed
qed

lemma level_push_back_sorted_bids:
  "sorted_wrt (>) (map fst levels) \<Longrightarrow> sorted_wrt (>) (map fst (level_push_back (>) ord levels))"
proof (induction levels)
  case Nil
  then show ?case by simp
next
  case (Cons lvl rest)
  obtain px queue where lvl: "lvl = (px, queue)" by (cases lvl)
  from Cons.prems have below: "\<forall>k\<in>set (map fst rest). k < px" and rest: "sorted_wrt (>) (map fst rest)"
    by (simp_all add: lvl)
  show ?case
  proof (cases "order_price ord > px")
    case True
    with below have "\<forall>k\<in>set (map fst rest). k < order_price ord" by auto
    with True Cons.prems show ?thesis by (simp add: lvl)
  next
    case False
    show ?thesis
    proof (cases "px > order_price ord")
      case True
      with below have "\<forall>k\<in>set (map fst (level_push_back (>) ord rest)). k < px"
        unfolding level_push_back_keys_bids by auto
      with True False Cons.IH [OF rest] show ?thesis by (simp add: lvl)
    next
      case nlt: False
      with False Cons.prems show ?thesis by (simp add: lvl)
    qed
  qed
qed

lemma level_push_back_ok_asks:
  "list_all (level_ok s) levels \<Longrightarrow> order_qty ord > 0 \<Longrightarrow> order_side ord = s \<Longrightarrow>
   list_all (level_ok s) (level_push_back (<) ord levels)"
  by (induction levels) (auto simp: level_ok_def)

lemma level_push_back_ok_bids:
  "list_all (level_ok s) levels \<Longrightarrow> order_qty ord > 0 \<Longrightarrow> order_side ord = s \<Longrightarrow>
   list_all (level_ok s) (level_push_back (>) ord levels)"
  by (induction levels) (auto simp: level_ok_def)

lemma index_ok_insert:
  assumes "index_ok idx rs" "order_id ord \<notin> order_id ` set rs"
    "set rs' = insert ord (set rs)" "distinct (map order_id rs')"
  shows "index_ok (idx(order_id ord \<mapsto> (order_side ord, order_price ord))) rs'"
proof -
  from assms(2) have ne: "\<And>r. r \<in> set rs \<Longrightarrow> order_id r \<noteq> order_id ord" by (metis imageI)
  with assms(1,3,4) show ?thesis by (auto simp: index_ok_def)
qed

lemma resting_ids_enqueue:
  "set (resting (enqueue ord b)) = insert ord (set (resting b))"
  by (auto simp: resting_def enqueue_def level_push_back_orders)

lemma enqueue_inv:
  assumes inv: "book_inv b" and pos: "order_qty ord > 0"
    and fresh: "order_id ord \<notin> order_id ` set (resting b)"
    and buy: "order_side ord = Buy \<Longrightarrow> \<forall>pa\<in>set (map fst (asks b)). order_price ord < pa"
    and sell: "order_side ord = Sell \<Longrightarrow> \<forall>pb\<in>set (map fst (bids b)). pb < order_price ord"
  shows "book_inv (enqueue ord b)"
proof (cases "order_side ord")
  case Buy
  let ?b' = "enqueue ord b"
  have b': "bids ?b' = level_push_back (>) ord (bids b)" "asks ?b' = asks b"
    "id_index ?b' = (id_index b)(order_id ord \<mapsto> (order_side ord, order_price ord))"
    using Buy by (simp_all add: enqueue_def)
  from inv have d: "distinct (map order_id (level_orders (bids b)) @ map order_id (level_orders (asks b)))"
    by (simp add: book_inv_def index_ok_def resting_def)
  from fresh have f: "order_id ord \<notin> order_id ` set (level_orders (bids b))"
    "order_id ord \<notin> order_id ` set (level_orders (asks b))"
    by (auto simp: resting_def)
  have "distinct (map order_id (resting ?b'))"
    using d f level_push_back_ids [of "(>)" ord "bids b"]
    by (auto simp: resting_def b' level_push_back_orders)
  with inv fresh have "index_ok (id_index ?b') (resting ?b')"
    unfolding b'(3) by (intro index_ok_insert [where rs = "resting b"])
      (simp_all add: book_inv_def resting_ids_enqueue)
  moreover from inv Buy pos have "sorted_wrt (>) (map fst (bids ?b'))" "list_all (level_ok Buy) (bids ?b')"
    by (simp_all add: b' book_inv_def level_push_back_sorted_bids level_push_back_ok_bids)
  moreover from inv buy [OF Buy]
  have "\<forall>pb\<in>set (map fst (bids ?b')). \<forall>pa\<in>set (map fst (asks ?b')). pb < pa"
    unfolding b' level_push_back_keys_bids by (auto simp: book_inv_def)
  ultimately show ?thesis using inv by (simp add: book_inv_def b'(2))
next
  case Sell
  let ?b' = "enqueue ord b"
  have b': "asks ?b' = level_push_back (<) ord (asks b)" "bids ?b' = bids b"
    "id_index ?b' = (id_index b)(order_id ord \<mapsto> (order_side ord, order_price ord))"
    using Sell by (simp_all add: enqueue_def)
  from inv have d: "distinct (map order_id (level_orders (bids b)) @ map order_id (level_orders (asks b)))"
    by (simp add: book_inv_def index_ok_def resting_def)
  from fresh have f: "order_id ord \<notin> order_id ` set (level_orders (bids b))"
    "order_id ord \<notin> order_id ` set (level_orders (asks b))"
    by (auto simp: resting_def)
  have "distinct (map order_id (resting ?b'))"
    using d f level_push_back_ids [of "(<)" ord "asks b"]
    by (auto simp: resting_def b' level_push_back_orders)
  with inv fresh have "index_ok (id_index ?b') (resting ?b')"
    unfolding b'(3) by (intro index_ok_insert [where rs = "resting b"])
      (simp_all add: book_inv_def resting_ids_enqueue)
  moreover from inv Sell pos have "sorted_wrt (<) (map fst (asks ?b'))" "list_all (level_ok Sell) (asks ?b')"
    by (simp_all add: b' book_inv_def level_push_back_sorted_asks level_push_back_ok_asks)
  moreover from inv sell [OF Sell]
  have "\<forall>pb\<in>set (map fst (bids ?b')). \<forall>pa\<in>set (map fst (asks ?b')). pb < pa"
    unfolding b' level_push_back_keys_asks by (auto simp: book_inv_def)
  ultimately show ?thesis using inv by (simp add: book_inv_def b'(2))
qed

lemma cross_asks_inv:
  assumes inv: "book_inv b"
    and c: "cross (<) ord (asks b) (id_index b) = (ord', asks', idx', ts)"
  shows "book_inv (b\<lparr>asks := asks', id_index := idx'\<rparr>)"
proof -
  from inv have "index_ok (id_index b) (level_orders (bids b) @ level_orders (asks b))"
    by (simp add: book_inv_def resting_def)
  from cross_index_ok(1) [OF c this]
  have "index_ok idx' (resting (b\<lparr>asks := asks', id_index := idx'\<rparr>))"
    by (simp add: resting_def)
  moreover from inv cross_sorted [OF c] cross_levels_ok [OF c, of Sell]
  have "sorted_wrt (<) (map fst asks')" "list_all (level_ok Sell) asks'"
    by (simp_all add: book_inv_def)
  moreover from inv cross_keys_subset [OF c]
  have "\<forall>pb\<in>set (map fst (bids b)). \<forall>pa\<in>set (map fst asks'). pb < pa"
    unfolding book_inv_def by blast
  ultimately show ?thesis using inv by (simp add: book_inv_def)
qed

lemma cross_bids_inv:
  assumes inv: "book_inv b"
    and c: "cross (>) ord (bids b) (id_index b) = (ord', bids', idx', ts)"
  shows "book_inv (b\<lparr>bids := bids', id_index := idx'\<rparr>)"
proof -
  from inv have "index_ok (id_index b) (level_orders (asks b) @ level_orders (bids b))"
    by (simp add: book_inv_def resting_def index_ok_commute)
  from cross_index_ok(1) [OF c this]
  have "index_ok idx' (resting (b\<lparr>bids := bids', id_index := idx'\<rparr>))"
    by (simp add: resting_def index_ok_commute)
  moreover from inv cross_sorted [OF c] cross_levels_ok [OF c, of Buy]
  have "sorted_wrt (>) (map fst bids')" "list_all (level_ok Buy) bids'"
    by (simp_all add: book_inv_def)
  moreover from inv cross_keys_subset [OF c]
  have "\<forall>pb\<in>set (map fst bids'). \<forall>pa\<in>set (map fst (asks b)). pb < pa"
    unfolding book_inv_def by blast
  ultimately show ?thesis using inv by (simp add: book_inv_def)
qed

lemma sorted_asks_above_head:
  "sorted_wrt (<) (map fst levels) \<Longrightarrow> levels \<noteq> [] \<Longrightarrow> p < fst (hd levels) \<Longrightarrow>
   \<forall>pa\<in>set (map fst levels). (p::int) < pa"
  by (cases levels) auto

lemma sorted_bids_below_head:
  "sorted_wrt (>) (map fst levels) \<Longrightarrow> levels \<noteq> [] \<Longrightarrow> p > fst (hd levels) \<Longrightarrow>
   \<forall>pb\<in>set (map fst levels). pb < (p::int)"
  by (cases levels) auto

text \<open>
  What one call of \<^verbatim>\<open>add_order\<close> does, in the terms of its two loops: the crossing of the
  opposite side, then the enqueueing of a positive remainder.
\<close>

lemma add_order_Buy:
  assumes "order_side ord = Buy"
    and "cross (<) ord (asks b) (id_index b) = (ord', asks', idx', ts)"
  shows "add_order ord b =
     (ts, if order_qty ord' > 0 then enqueue ord' (b\<lparr>asks := asks', id_index := idx'\<rparr>)
          else b\<lparr>asks := asks', id_index := idx'\<rparr>)"
  using assms by (simp add: add_order_def)

lemma add_order_Sell:
  assumes "order_side ord = Sell"
    and "cross (>) ord (bids b) (id_index b) = (ord', bids', idx', ts)"
  shows "add_order ord b =
     (ts, if order_qty ord' > 0 then enqueue ord' (b\<lparr>bids := bids', id_index := idx'\<rparr>)
          else b\<lparr>bids := bids', id_index := idx'\<rparr>)"
  using assms by (simp add: add_order_def)

lemma add_order_inv:
  assumes inv: "book_inv b" and pos: "order_qty ord > 0"
    and fresh: "order_id ord \<notin> order_id ` set (resting b)"
  shows "book_inv (snd (add_order ord b))"
proof (cases "order_side ord")
  case Buy
  obtain ord' asks' idx' ts where c: "cross (<) ord (asks b) (id_index b) = (ord', asks', idx', ts)"
    by (cases "cross (<) ord (asks b) (id_index b)") auto
  let ?b1 = "b\<lparr>asks := asks', id_index := idx'\<rparr>"
  have inv1: "book_inv ?b1" by (rule cross_asks_inv [OF inv c])
  show ?thesis
  proof (cases "order_qty ord' > 0")
    case False
    with inv1 show ?thesis by (simp add: add_order_Buy [OF Buy c])
  next
    case True
    from cross_order [OF c] Buy have side: "order_side ord' = Buy" and id: "order_id ord' = order_id ord"
      and price: "order_price ord' = order_price ord"
      by simp_all
    have "order_id ` set (level_orders asks') \<subseteq> order_id ` set (level_orders (asks b))"
    proof -
      from inv have "index_ok (id_index b) (level_orders (bids b) @ level_orders (asks b))"
        by (simp add: book_inv_def resting_def)
      from cross_index_ok(2) [OF c this] show ?thesis .
    qed
    with fresh have fresh1: "order_id ord' \<notin> order_id ` set (resting ?b1)"
      by (auto simp: resting_def id)
    from inv1 have sorted: "sorted_wrt (<) (map fst asks')" by (simp add: book_inv_def)
    have above: "\<forall>pa\<in>set (map fst (asks ?b1)). order_price ord' < pa"
    proof (cases "asks' = []")
      case True
      then show ?thesis by simp
    next
      case False
      with cross_stop [OF c \<open>order_qty ord' > 0\<close>] have "order_price ord < fst (hd asks')" by simp
      from sorted_asks_above_head [OF sorted False this] show ?thesis by (simp add: price)
    qed
    have "book_inv (enqueue ord' ?b1)"
      using inv1 True fresh1 above side by (intro enqueue_inv) simp_all
    with True show ?thesis by (simp add: add_order_Buy [OF Buy c])
  qed
next
  case Sell
  obtain ord' bids' idx' ts where c: "cross (>) ord (bids b) (id_index b) = (ord', bids', idx', ts)"
    by (cases "cross (>) ord (bids b) (id_index b)") auto
  let ?b1 = "b\<lparr>bids := bids', id_index := idx'\<rparr>"
  have inv1: "book_inv ?b1" by (rule cross_bids_inv [OF inv c])
  show ?thesis
  proof (cases "order_qty ord' > 0")
    case False
    with inv1 show ?thesis by (simp add: add_order_Sell [OF Sell c])
  next
    case True
    from cross_order [OF c] Sell have side: "order_side ord' = Sell" and id: "order_id ord' = order_id ord"
      and price: "order_price ord' = order_price ord"
      by simp_all
    have "order_id ` set (level_orders bids') \<subseteq> order_id ` set (level_orders (bids b))"
    proof -
      from inv have "index_ok (id_index b) (level_orders (asks b) @ level_orders (bids b))"
        by (simp add: book_inv_def resting_def index_ok_commute)
      from cross_index_ok(2) [OF c this] show ?thesis .
    qed
    with fresh have fresh1: "order_id ord' \<notin> order_id ` set (resting ?b1)"
      by (auto simp: resting_def id)
    from inv1 have sorted: "sorted_wrt (>) (map fst bids')" by (simp add: book_inv_def)
    have below: "\<forall>pb\<in>set (map fst (bids ?b1)). pb < order_price ord'"
    proof (cases "bids' = []")
      case True
      then show ?thesis by simp
    next
      case False
      with cross_stop [OF c \<open>order_qty ord' > 0\<close>] have "order_price ord > fst (hd bids')" by simp
      from sorted_bids_below_head [OF sorted False this] show ?thesis by (simp add: price)
    qed
    have "book_inv (enqueue ord' ?b1)"
      using inv1 True fresh1 below side by (intro enqueue_inv) simp_all
    with True show ?thesis by (simp add: add_order_Sell [OF Sell c])
  qed
qed

definition resting_qty :: "OrderBook \<Rightarrow> Qty" where
  "resting_qty b = sum_list (map order_qty (resting b))"

lemma cross_strip_subset:
  assumes "cross cmp ord levels idx = (ord', levels', idx', ts)"
  shows "strip ` set (level_orders levels') \<subseteq> strip ` set (level_orders levels)"
proof -
  from cross_shape [OF assms] obtain k where
    "map strip (level_orders levels') = drop k (map strip (level_orders levels))"
    by blast
  then have "set (map strip (level_orders levels')) \<subseteq> set (map strip (level_orders levels))"
    by (metis set_drop_subset)
  then show ?thesis by simp
qed

lemma cross_strip_order:
  "cross cmp ord levels idx = (ord', levels', idx', ts) \<Longrightarrow> strip ord' = strip ord"
  by (drule cross_order) (simp add: strip_eq_iff)

lemma add_order_strips:
  "strip ` set (resting (snd (add_order ord b))) \<subseteq> insert (strip ord) (strip ` set (resting b))"
proof (cases "order_side ord")
  case Buy
  obtain ord' asks' idx' ts where c: "cross (<) ord (asks b) (id_index b) = (ord', asks', idx', ts)"
    by (cases "cross (<) ord (asks b) (id_index b)") auto
  from cross_strip_subset [OF c] cross_strip_order [OF c] show ?thesis
    by (auto simp: add_order_Buy [OF Buy c] resting_def enqueue_def level_push_back_orders)
next
  case Sell
  obtain ord' bids' idx' ts where c: "cross (>) ord (bids b) (id_index b) = (ord', bids', idx', ts)"
    by (cases "cross (>) ord (bids b) (id_index b)") auto
  from cross_strip_subset [OF c] cross_strip_order [OF c] show ?thesis
    by (auto simp: add_order_Sell [OF Sell c] resting_def enqueue_def level_push_back_orders)
qed



lemma levels_ok_orders:
  "list_all (level_ok s) levels \<Longrightarrow> r \<in> set (level_orders levels) \<Longrightarrow>
   order_qty r > 0 \<and> order_side r = s \<and> order_price r \<in> set (map fst levels)"
  by (induction levels) (auto simp: level_ok_def)

lemma book_inv_resting:
  "book_inv b \<Longrightarrow> r \<in> set (resting b) \<Longrightarrow> order_qty r > 0"
  by (auto simp: book_inv_def resting_def dest: levels_ok_orders)

lemma add_order_trades:
  assumes inv: "book_inv b" and t: "t \<in> set (fst (add_order ord b))"
  shows "taker_id t = order_id ord \<and> trade_qty t > 0 \<and>
     (\<exists>m\<in>set (resting b). maker_id t = order_id m \<and> trade_price t = order_price m)"
proof (cases "order_side ord")
  case Buy
  obtain ord' asks' idx' ts where c: "cross (<) ord (asks b) (id_index b) = (ord', asks', idx', ts)"
    by (cases "cross (<) ord (asks b) (id_index b)") auto
  with t Buy have "t \<in> set ts" by (simp add: add_order_Buy [OF Buy c])
  from cross_trades [OF c this] obtain m where m: "taker_id t = order_id ord"
    "m \<in> set (level_orders (asks b))" "maker_id t = order_id m" "trade_price t = order_price m"
    "order_qty m > 0 \<longrightarrow> trade_qty t > 0"
    by blast
  from m(2) have "m \<in> set (resting b)" by (simp add: resting_def)
  with m book_inv_resting [OF inv this] show ?thesis by blast
next
  case Sell
  obtain ord' bids' idx' ts where c: "cross (>) ord (bids b) (id_index b) = (ord', bids', idx', ts)"
    by (cases "cross (>) ord (bids b) (id_index b)") auto
  with t Sell have "t \<in> set ts" by (simp add: add_order_Sell [OF Sell c])
  from cross_trades [OF c this] obtain m where m: "taker_id t = order_id ord"
    "m \<in> set (level_orders (bids b))" "maker_id t = order_id m" "trade_price t = order_price m"
    "order_qty m > 0 \<longrightarrow> trade_qty t > 0"
    by blast
  from m(2) have "m \<in> set (resting b)" by (simp add: resting_def)
  with m book_inv_resting [OF inv this] show ?thesis by blast
qed

lemma add_order_conserves:
  assumes inv: "book_inv b" and pos: "order_qty ord > 0"
  shows "order_qty ord + resting_qty b
     = resting_qty (snd (add_order ord b)) + 2 * sum_list (map trade_qty (fst (add_order ord b)))"
proof (cases "order_side ord")
  case Buy
  obtain ord' asks' idx' ts where c: "cross (<) ord (asks b) (id_index b) = (ord', asks', idx', ts)"
    by (cases "cross (<) ord (asks b) (id_index b)") auto
  from inv have "list_all (level_ok Sell) (asks b)" by (simp add: book_inv_def)
  from cross_qty_bounds [OF c this] pos have "0 \<le> order_qty ord'" by simp
  with cross_conserves [OF c] show ?thesis
    by (auto simp: add_order_Buy [OF Buy c] resting_qty_def resting_def enqueue_def
        level_push_back_qty)
next
  case Sell
  obtain ord' bids' idx' ts where c: "cross (>) ord (bids b) (id_index b) = (ord', bids', idx', ts)"
    by (cases "cross (>) ord (bids b) (id_index b)") auto
  from inv have "list_all (level_ok Buy) (bids b)" by (simp add: book_inv_def)
  from cross_qty_bounds [OF c this] pos have "0 \<le> order_qty ord'" by simp
  with cross_conserves [OF c] show ?thesis
    by (auto simp: add_order_Sell [OF Sell c] resting_qty_def resting_def enqueue_def
        level_push_back_qty)
qed

section \<open>Cancellation\<close>

lemma erase_id_Some:
  "erase_id i dq = Some dq' \<Longrightarrow>
   \<exists>xs r ys. dq = xs @ r # ys \<and> order_id r = i \<and> dq' = xs @ ys"
proof (induction dq arbitrary: dq')
  case Nil
  then show ?case by simp
next
  case (Cons x dq)
  show ?case
  proof (cases "order_id x = i")
    case True
    with Cons.prems have "dq' = dq" by simp
    with True show ?thesis by (intro exI [of _ "[]"] exI [of _ x] exI [of _ dq]) simp
  next
    case False
    with Cons.prems obtain dq1 where e: "erase_id i dq = Some dq1" and dq': "dq' = x # dq1"
      by auto
    from Cons.IH [OF e] obtain xs r ys where "dq = xs @ r # ys" "order_id r = i" "dq1 = xs @ ys"
      by blast
    with dq' show ?thesis by (intro exI [of _ "x # xs"] exI [of _ r] exI [of _ ys]) simp
  qed
qed

lemma erase_id_None: "erase_id i dq = None \<longleftrightarrow> i \<notin> order_id ` set dq"
  by (induction dq) auto

lemma cancel_level_Some:
  "cancel_level i price levels = Some levels' \<Longrightarrow>
   \<exists>xs r ys. level_orders levels = xs @ r # ys \<and> order_id r = i
      \<and> level_orders levels' = xs @ ys"
proof (induction levels arbitrary: levels')
  case Nil
  then show ?case by simp
next
  case (Cons lvl rest)
  obtain px dq where lvl: "lvl = (px, dq)" by (cases lvl)
  show ?case
  proof (cases "px = price")
    case True
    with Cons.prems obtain dq' where e: "erase_id i dq = Some dq'"
      and l': "levels' = (if dq' = [] then rest else (px, dq') # rest)"
      by (auto simp: lvl split: option.splits)
    from erase_id_Some [OF e] obtain xs r ys where "dq = xs @ r # ys" "order_id r = i" "dq' = xs @ ys"
      by blast
    with l' show ?thesis
      by (intro exI [of _ xs] exI [of _ r] exI [of _ "ys @ level_orders rest"]) (auto simp: lvl)
  next
    case False
    with Cons.prems obtain rest' where c: "cancel_level i price rest = Some rest'"
      and l': "levels' = (px, dq) # rest'"
      by (auto simp: lvl)
    from Cons.IH [OF c] obtain xs r ys where "level_orders rest = xs @ r # ys" "order_id r = i"
      "level_orders rest' = xs @ ys"
      by blast
    with l' show ?thesis
      by (intro exI [of _ "dq @ xs"] exI [of _ r] exI [of _ ys]) (simp add: lvl)
  qed
qed

lemma cancel_level_keys:
  "cancel_level i price levels = Some levels' \<Longrightarrow> set (map fst levels') \<subseteq> set (map fst levels)"
proof (induction levels arbitrary: levels')
  case Nil
  then show ?case by simp
next
  case (Cons lvl rest)
  obtain px dq where lvl: "lvl = (px, dq)" by (cases lvl)
  show ?case
  proof (cases "px = price")
    case True
    with Cons.prems obtain dq' where "levels' = (if dq' = [] then rest else (px, dq') # rest)"
      by (auto simp: lvl split: option.splits)
    then show ?thesis by (auto simp: lvl)
  next
    case False
    with Cons.prems obtain rest' where c: "cancel_level i price rest = Some rest'"
      and l': "levels' = (px, dq) # rest'"
      by (auto simp: lvl)
    from Cons.IH [OF c] show ?thesis unfolding l' lvl by auto
  qed
qed

lemma cancel_level_sorted:
  "cancel_level i price levels = Some levels' \<Longrightarrow> sorted_wrt cmp (map fst levels) \<Longrightarrow>
   sorted_wrt cmp (map fst levels')"
proof (induction levels arbitrary: levels')
  case Nil
  then show ?case by simp
next
  case (Cons lvl rest)
  obtain px dq where lvl: "lvl = (px, dq)" by (cases lvl)
  show ?case
  proof (cases "px = price")
    case True
    with Cons.prems show ?thesis by (auto simp: lvl split: option.splits if_splits)
  next
    case False
    with Cons.prems obtain rest' where c: "cancel_level i price rest = Some rest'"
      and l': "levels' = (px, dq) # rest'"
      by (auto simp: lvl)
    from Cons.prems(2) have "\<forall>k\<in>set (map fst rest). cmp px k" "sorted_wrt cmp (map fst rest)"
      by (simp_all add: lvl)
    moreover from this(1) cancel_level_keys [OF c] have "\<forall>k\<in>set (map fst rest'). cmp px k"
      by blast
    ultimately show ?thesis using Cons.IH [OF c] unfolding l' by simp
  qed
qed

lemma cancel_level_ok:
  "cancel_level i price levels = Some levels' \<Longrightarrow> list_all (level_ok s) levels \<Longrightarrow>
   list_all (level_ok s) levels'"
proof (induction levels arbitrary: levels')
  case Nil
  then show ?case by simp
next
  case (Cons lvl rest)
  obtain px dq where lvl: "lvl = (px, dq)" by (cases lvl)
  from Cons.prems(2) have head: "level_ok s (px, dq)" and rest: "list_all (level_ok s) rest"
    by (simp_all add: lvl)
  show ?case
  proof (cases "px = price")
    case True
    with Cons.prems obtain dq' where e: "erase_id i dq = Some dq'"
      and l': "levels' = (if dq' = [] then rest else (px, dq') # rest)"
      by (auto simp: lvl split: option.splits)
    from erase_id_Some [OF e] obtain xs r ys where "dq = xs @ r # ys" "dq' = xs @ ys" by blast
    with head have "dq' \<noteq> [] \<Longrightarrow> level_ok s (px, dq')" by (auto simp: level_ok_def)
    with rest show ?thesis unfolding l' by simp
  next
    case False
    with Cons.prems obtain rest' where c: "cancel_level i price rest = Some rest'"
      and l': "levels' = (px, dq) # rest'"
      by (auto simp: lvl)
    from Cons.IH [OF c rest] head show ?thesis unfolding l' by simp
  qed
qed

text \<open>
  In a well-formed side with distinct prices, the order is found where the index says.
\<close>

lemma cancel_level_finds:
  "list_all (level_ok s) levels \<Longrightarrow> distinct (map fst levels) \<Longrightarrow>
   r \<in> set (level_orders levels) \<Longrightarrow>
   cancel_level (order_id r) (order_price r) levels \<noteq> None"
proof (induction levels)
  case Nil
  then show ?case by simp
next
  case (Cons lvl rest)
  obtain px dq where lvl: "lvl = (px, dq)" by (cases lvl)
  from Cons.prems(1) have head: "level_ok s (px, dq)" and rest: "list_all (level_ok s) rest"
    by (simp_all add: lvl)
  from Cons.prems(2) have fresh: "px \<notin> set (map fst rest)" and d: "distinct (map fst rest)"
    by (simp_all add: lvl)
  show ?case
  proof (cases "r \<in> set dq")
    case True
    with head have "order_price r = px" by (simp add: level_ok_def)
    moreover from True have "erase_id (order_id r) dq \<noteq> None" by (simp add: erase_id_None)
    ultimately show ?thesis by (auto simp: lvl)
  next
    case False
    with Cons.prems(3) have r: "r \<in> set (level_orders rest)" by (simp add: lvl)
    from levels_ok_orders [OF rest r] fresh have "px \<noteq> order_price r" by auto
    with Cons.IH [OF rest d r] show ?thesis by (auto simp: lvl)
  qed
qed

lemma index_ok_remove:
  assumes "index_ok idx (xs @ r # ys)"
  shows "index_ok (idx(order_id r := None)) (xs @ ys)"
proof -
  from assms have d: "distinct (map order_id (xs @ r # ys))"
    and look: "\<forall>x\<in>set (xs @ r # ys). idx (order_id x) = Some (order_side x, order_price x)"
    and dom: "dom idx \<subseteq> order_id ` set (xs @ r # ys)"
    by (simp_all add: index_ok_def)
  from d have "order_id r \<notin> order_id ` set (xs @ ys)" by auto
  then have ne: "\<And>x. x \<in> set (xs @ ys) \<Longrightarrow> order_id x \<noteq> order_id r" by (metis imageI)
  from d have "distinct (map order_id (xs @ ys))" by simp
  moreover from look ne have "\<forall>x\<in>set (xs @ ys). (idx(order_id r := None)) (order_id x) = Some (order_side x, order_price x)"
    by auto
  moreover from dom have "dom (idx(order_id r := None)) \<subseteq> order_id ` set (xs @ ys)"
    by auto
  ultimately show ?thesis by (simp add: index_ok_def)
qed

lemma distinct_ids_filter:
  assumes "distinct (map order_id (xs @ r # ys))"
  shows "filter (\<lambda>x. order_id x \<noteq> order_id r) (xs @ r # ys) = xs @ ys"
proof -
  from assms have "order_id r \<notin> order_id ` set (xs @ ys)" by auto
  then have "\<And>x. x \<in> set (xs @ ys) \<Longrightarrow> order_id x \<noteq> order_id r" by (metis imageI)
  then have "filter (\<lambda>x. order_id x \<noteq> order_id r) (xs @ ys) = xs @ ys"
    by (intro filter_True) blast
  then show ?thesis by simp
qed

lemma sorted_wrt_less_distinct: "sorted_wrt (<) (xs::int list) \<Longrightarrow> distinct xs"
  by (induction xs) auto

lemma sorted_wrt_greater_distinct: "sorted_wrt (>) (xs::int list) \<Longrightarrow> distinct xs"
  by (induction xs) auto

lemma cancel_False: "\<not> fst (cancel i b) \<Longrightarrow> cancel i b = (False, b)"
  by (auto simp: cancel_def split: option.splits prod.splits if_splits)

lemma cancel_True_indexed: "fst (cancel i b) \<Longrightarrow> i \<in> dom (id_index b)"
  by (auto simp: cancel_def split: option.splits)

lemma cancel_resting:
  assumes inv: "book_inv b" and r: "r \<in> set (resting b)"
  shows "fst (cancel (order_id r) b)"
proof -
  from inv r have idx: "id_index b (order_id r) = Some (order_side r, order_price r)"
    by (simp add: book_inv_def index_ok_def)
  from inv have ok: "list_all (level_ok Buy) (bids b)" "list_all (level_ok Sell) (asks b)"
    and d: "distinct (map fst (bids b))" "distinct (map fst (asks b))"
    by (simp_all add: book_inv_def sorted_wrt_less_distinct sorted_wrt_greater_distinct)
  show ?thesis
  proof (cases "r \<in> set (level_orders (bids b))")
    case True
    from levels_ok_orders [OF ok(1) True] have "order_side r = Buy" by simp
    with idx cancel_level_finds [OF ok(1) d(1) True] show ?thesis
      by (auto simp: cancel_def)
  next
    case False
    with r have a: "r \<in> set (level_orders (asks b))" by (simp add: resting_def)
    from levels_ok_orders [OF ok(2) a] have "order_side r = Sell" by simp
    with idx cancel_level_finds [OF ok(2) d(2) a] show ?thesis
      by (auto simp: cancel_def)
  qed
qed

lemma cancel_iff:
  assumes "book_inv b"
  shows "fst (cancel i b) \<longleftrightarrow> i \<in> order_id ` set (resting b)"
proof
  assume "fst (cancel i b)"
  from cancel_True_indexed [OF this] assms show "i \<in> order_id ` set (resting b)"
    by (auto simp: book_inv_def index_ok_def)
next
  assume "i \<in> order_id ` set (resting b)"
  then obtain r where "r \<in> set (resting b)" "i = order_id r" by auto
  with cancel_resting [OF assms] show "fst (cancel i b)" by simp
qed

lemma cancel_True:
  assumes inv: "book_inv b" and t: "fst (cancel i b)"
  shows "book_inv (snd (cancel i b)) \<and>
     resting (snd (cancel i b)) = filter (\<lambda>r. order_id r \<noteq> i) (resting b)"
proof -
  from t obtain side price where idx: "id_index b i = Some (side, price)"
    by (auto simp: cancel_def split: option.splits)
  from inv have iok: "index_ok (id_index b) (level_orders (bids b) @ level_orders (asks b))"
    by (simp add: book_inv_def resting_def)
  show ?thesis
  proof (cases side)
    case Buy
    with t idx obtain bids' where c: "cancel_level i price (bids b) = Some bids'"
      and b': "snd (cancel i b) = b\<lparr>bids := bids', id_index := (id_index b)(i := None)\<rparr>"
      by (auto simp: cancel_def split: option.splits)
    from cancel_level_Some [OF c] obtain xs r ys where shape:
      "level_orders (bids b) = xs @ r # ys" "order_id r = i" "level_orders bids' = xs @ ys"
      by blast
    from iok have "index_ok (id_index b) (xs @ r # (ys @ level_orders (asks b)))"
      by (simp add: shape)
    from index_ok_remove [OF this]
    have 1: "index_ok ((id_index b)(i := None)) (resting (snd (cancel i b)))"
      by (simp add: b' resting_def shape)
    from inv cancel_level_sorted [OF c] cancel_level_ok [OF c] cancel_level_keys [OF c]
    have 2: "sorted_wrt (>) (map fst bids')" "list_all (level_ok Buy) bids'"
      "\<forall>pb\<in>set (map fst bids'). \<forall>pa\<in>set (map fst (asks b)). pb < pa"
      unfolding book_inv_def by blast+
    from inv 1 2 have 3: "book_inv (snd (cancel i b))" by (simp add: book_inv_def b')
    from iok have "distinct (map order_id (xs @ r # (ys @ level_orders (asks b))))"
      by (simp add: index_ok_def shape)
    from distinct_ids_filter [OF this]
    have "resting (snd (cancel i b)) = filter (\<lambda>r. order_id r \<noteq> i) (resting b)"
      by (simp add: b' resting_def shape)
    with 3 show ?thesis by simp
  next
    case Sell
    with t idx obtain asks' where c: "cancel_level i price (asks b) = Some asks'"
      and b': "snd (cancel i b) = b\<lparr>asks := asks', id_index := (id_index b)(i := None)\<rparr>"
      by (auto simp: cancel_def split: option.splits)
    from cancel_level_Some [OF c] obtain xs r ys where shape:
      "level_orders (asks b) = xs @ r # ys" "order_id r = i" "level_orders asks' = xs @ ys"
      by blast
    from iok have "index_ok (id_index b) ((level_orders (bids b) @ xs) @ r # ys)"
      by (simp add: shape)
    from index_ok_remove [OF this]
    have 1: "index_ok ((id_index b)(i := None)) (resting (snd (cancel i b)))"
      by (simp add: b' resting_def shape)
    from inv cancel_level_sorted [OF c] cancel_level_ok [OF c] cancel_level_keys [OF c]
    have 2: "sorted_wrt (<) (map fst asks')" "list_all (level_ok Sell) asks'"
      "\<forall>pb\<in>set (map fst (bids b)). \<forall>pa\<in>set (map fst asks'). pb < pa"
      unfolding book_inv_def by blast+
    from inv 1 2 have 3: "book_inv (snd (cancel i b))" by (simp add: book_inv_def b')
    from iok have "distinct (map order_id ((level_orders (bids b) @ xs) @ r # ys))"
      by (simp add: index_ok_def shape)
    from distinct_ids_filter [OF this]
    have "resting (snd (cancel i b)) = filter (\<lambda>r. order_id r \<noteq> i) (resting b)"
      by (simp add: b' resting_def shape)
    with 3 show ?thesis by simp
  qed
qed

lemma cancel_inv: "book_inv b \<Longrightarrow> book_inv (snd (cancel i b))"
  by (cases "fst (cancel i b)") (simp_all add: cancel_True cancel_False)


lemma empty_book_inv: "book_inv empty_book"
  by (simp add: book_inv_def empty_book_def index_ok_def resting_def)

section \<open>Runs from the empty book\<close>

text \<open>
  The orders a sequence of calls submits, in order. A sequence is well formed when every
  submitted order has a positive quantity and an id no other submitted order has.
\<close>

fun submitted :: "Op list \<Rightarrow> Order list" where
  "submitted [] = []"
| "submitted (Add ord # ops) = ord # submitted ops"
| "submitted (Cancel i # ops) = submitted ops"

definition well_formed :: "Op list \<Rightarrow> bool" where
  "well_formed ops \<longleftrightarrow>
     distinct (map order_id (submitted ops)) \<and>
     list_all (\<lambda>ord. order_qty ord > 0) (submitted ops)"

fun trades_of :: "Result \<Rightarrow> Trade list" where
  "trades_of (Trades ts) = ts"
| "trades_of (Cancelled r) = []"

lemma submitted_append: "submitted (xs @ ys) = submitted xs @ submitted ys"
  by (induction xs rule: submitted.induct) simp_all

lemma submitted_map_Add [simp]: "submitted (map Add os) = os"
  by (induction os) simp_all

lemma well_formed_append: "well_formed (xs @ ys) \<Longrightarrow> well_formed xs \<and> well_formed ys"
  by (simp add: well_formed_def submitted_append)

lemma well_formed_take: "well_formed ops \<Longrightarrow> well_formed (take n ops)"
  using well_formed_append [of "take n ops" "drop n ops"] by simp

lemma apply_op_Add:
  "fst (apply_op (Add ord) b) = Trades (fst (add_order ord b))"
  "snd (apply_op (Add ord) b) = snd (add_order ord b)"
  by (simp_all add: split_beta)

lemma apply_op_Cancel:
  "fst (apply_op (Cancel i) b) = Cancelled (fst (cancel i b))"
  "snd (apply_op (Cancel i) b) = snd (cancel i b)"
  by (simp_all add: split_beta)

lemma run_Cons:
  "fst (run (op # ops) b) = fst (apply_op op b) # fst (run ops (snd (apply_op op b)))"
  "snd (run (op # ops) b) = snd (run ops (snd (apply_op op b)))"
  by (simp_all add: split_beta)

lemma run_append:
  "fst (run (xs @ ys) b) = fst (run xs b) @ fst (run ys (snd (run xs b)))"
  "snd (run (xs @ ys) b) = snd (run ys (snd (run xs b)))"
  by (induction xs arbitrary: b) (simp_all add: run_Cons del: run.simps(2))

lemma run_snoc:
  "snd (run (ops @ [op]) b) = snd (apply_op op (snd (run ops b)))"
  by (simp add: run_append run_Cons del: run.simps(2))

lemma length_run: "length (fst (run ops b)) = length ops"
  by (induction ops arbitrary: b) (simp_all add: run_Cons del: run.simps(2))

lemma run_nth:
  "i < length ops \<Longrightarrow>
   fst (run ops b) ! i = fst (apply_op (ops ! i) (snd (run (take i ops) b)))"
proof (induction ops arbitrary: i b)
  case Nil
  then show ?case by simp
next
  case (Cons op ops)
  show ?case
  proof (cases i)
    case 0
    then show ?thesis by (simp add: run_Cons del: run.simps(2))
  next
    case (Suc j)
    with Cons.prems have "j < length ops" by simp
    from Cons.IH [OF this] Suc show ?thesis by (simp add: run_Cons del: run.simps(2))
  qed
qed

lemma cancel_resting_subset: "set (resting (snd (cancel i b))) \<subseteq> set (resting b)"
proof (cases "fst (cancel i b)")
  case False
  then show ?thesis by (simp add: cancel_False)
next
  case True
  then obtain side price where idx: "id_index b i = Some (side, price)"
    by (auto simp: cancel_def split: option.splits)
  show ?thesis
  proof (cases side)
    case Buy
    with True idx obtain bids' where c: "cancel_level i price (bids b) = Some bids'"
      and b': "snd (cancel i b) = b\<lparr>bids := bids', id_index := (id_index b)(i := None)\<rparr>"
      by (auto simp: cancel_def split: option.splits)
    from cancel_level_Some [OF c] show ?thesis by (auto simp: b' resting_def)
  next
    case Sell
    with True idx obtain asks' where c: "cancel_level i price (asks b) = Some asks'"
      and b': "snd (cancel i b) = b\<lparr>asks := asks', id_index := (id_index b)(i := None)\<rparr>"
      by (auto simp: cancel_def split: option.splits)
    from cancel_level_Some [OF c] show ?thesis by (auto simp: b' resting_def)
  qed
qed

text \<open>
  Every book a well-formed run reaches satisfies the invariant, and every order resting
  in it is one of the submitted orders, up to its remaining quantity.
\<close>

lemma run_inv:
  "well_formed ops \<Longrightarrow>
   book_inv (snd (run ops empty_book)) \<and>
   strip ` set (resting (snd (run ops empty_book))) \<subseteq> strip ` set (submitted ops)"
proof (induction ops rule: rev_induct)
  case Nil
  show ?case by (simp add: empty_book_inv) (simp add: empty_book_def resting_def)
next
  case (snoc op ops)
  let ?b = "snd (run ops empty_book)"
  from snoc.prems have wf: "well_formed ops" by (auto dest: well_formed_append)
  from snoc.IH [OF wf] have inv: "book_inv ?b"
    and sub: "strip ` set (resting ?b) \<subseteq> strip ` set (submitted ops)"
    by simp_all
  show ?case
  proof (cases op)
    case (Cancel i)
    from cancel_resting_subset [of i ?b] sub
    have "strip ` set (resting (snd (cancel i ?b))) \<subseteq> strip ` set (submitted ops)"
      by blast
    with cancel_inv [OF inv, of i] show ?thesis
      unfolding run_snoc Cancel apply_op_Cancel by (simp add: submitted_append)
  next
    case (Add ord)
    from snoc.prems have pos: "order_qty ord > 0"
      and new: "order_id ord \<notin> order_id ` set (submitted ops)"
      by (auto simp: well_formed_def submitted_append Add)
    have "order_id ` set (resting ?b) \<subseteq> order_id ` set (submitted ops)"
    proof
      fix i assume "i \<in> order_id ` set (resting ?b)"
      then obtain r where r: "r \<in> set (resting ?b)" "i = order_id r" by auto
      with sub obtain s where "s \<in> set (submitted ops)" "strip r = strip s" by auto
      with r(2) show "i \<in> order_id ` set (submitted ops)" by (auto simp: strip_eq_iff)
    qed
    with new have fresh: "order_id ord \<notin> order_id ` set (resting ?b)" by auto
    from add_order_strips [of ord ?b] sub
    have "strip ` set (resting (snd (add_order ord ?b))) \<subseteq> insert (strip ord) (strip ` set (submitted ops))"
      by blast
    with add_order_inv [OF inv pos fresh] show ?thesis
      unfolding run_snoc Add apply_op_Add by (simp add: submitted_append)
  qed
qed

lemma run_Add_inv:
  assumes "well_formed (map Add os)"
  shows "book_inv (snd (run (map Add (take n os)) empty_book))"
    and "strip ` set (resting (snd (run (map Add (take n os)) empty_book))) \<subseteq> strip ` set (take n os)"
proof -
  from assms have "well_formed (take n (map Add os))" by (rule well_formed_take)
  then have "well_formed (map Add (take n os))" by (simp add: take_map)
  from run_inv [OF this]
  show "book_inv (snd (run (map Add (take n os)) empty_book))"
    and "strip ` set (resting (snd (run (map Add (take n os)) empty_book))) \<subseteq> strip ` set (take n os)"
    by simp_all
qed

lemma book_inv_uncrossed:
  assumes "book_inv b"
  shows "bids b = [] \<or> asks b = [] \<or>
     (\<exists>pb pa. best_bid b = Some pb \<and> best_ask b = Some pa \<and> pb < pa)"
proof (cases "bids b")
  case Nil
  then show ?thesis by simp
next
  case bc: (Cons lb restb)
  show ?thesis
  proof (cases "asks b")
    case Nil
    then show ?thesis by simp
  next
    case ac: (Cons la resta)
    from assms bc ac have "fst lb < fst la" by (simp add: book_inv_def)
    with bc ac show ?thesis by (cases lb; cases la) (simp add: best_bid_def best_ask_def)
  qed
qed

lemma book_inv_no_crossing_orders:
  assumes "book_inv b" "rb \<in> set (level_orders (bids b))" "ra \<in> set (level_orders (asks b))"
  shows "order_price rb < order_price ra"
proof -
  from assms have "list_all (level_ok Buy) (bids b)" "list_all (level_ok Sell) (asks b)"
    by (simp_all add: book_inv_def)
  from levels_ok_orders [OF this(1) assms(2)] levels_ok_orders [OF this(2) assms(3)]
  have "order_price rb \<in> set (map fst (bids b))" "order_price ra \<in> set (map fst (asks b))"
    by simp_all
  with assms(1) show ?thesis unfolding book_inv_def by blast
qed

section \<open>Index consistency\<close>

text \<open>
  \<open>queue_at s p b\<close> is the queue \<^verbatim>\<open>find(p)\<close> reaches on side \<open>s\<close>, empty when the level is
  absent.
\<close>

definition side_levels :: "Side \<Rightarrow> OrderBook \<Rightarrow> Levels" where
  "side_levels s b = (if s = Buy then bids b else asks b)"

definition level_queue :: "Levels \<Rightarrow> Price \<Rightarrow> Order list" where
  "level_queue levels p = (case map_of levels p of None \<Rightarrow> [] | Some queue \<Rightarrow> queue)"

definition queue_at :: "Side \<Rightarrow> Price \<Rightarrow> OrderBook \<Rightarrow> Order list" where
  "queue_at s p b = level_queue (side_levels s b) p"

text \<open>
  The three parts of the consistency of index and ladders: an indexed id names exactly
  one resting order, found with a positive quantity in the queue at the recorded side and
  price; a resting order is indexed under its own side and price, which is where it
  rests; a level is present exactly when its queue is not empty.
\<close>

definition index_consistent :: "OrderBook \<Rightarrow> bool" where
  "index_consistent b \<longleftrightarrow>
     (\<forall>i s p. id_index b i = Some (s, p) \<longrightarrow>
        (\<exists>r. filter (\<lambda>x. order_id x = i) (queue_at s p b) = [r] \<and> order_qty r > 0
            \<and> filter (\<lambda>x. order_id x = i) (resting b) = [r])) \<and>
     (\<forall>r\<in>set (resting b).
        id_index b (order_id r) = Some (order_side r, order_price r) \<and>
        r \<in> set (queue_at (order_side r) (order_price r) b)) \<and>
     (\<forall>s p. p \<in> fst ` set (side_levels s b) \<longleftrightarrow> queue_at s p b \<noteq> [])"

lemma filter_id_single:
  "distinct (map order_id xs) \<Longrightarrow> r \<in> set xs \<Longrightarrow>
   filter (\<lambda>x. order_id x = order_id r) xs = [r]"
proof (induction xs)
  case Nil
  then show ?case by simp
next
  case (Cons x xs)
  show ?case
  proof (cases "x = r")
    case True
    with Cons.prems have "order_id r \<notin> order_id ` set xs" by simp
    then have "\<And>y. y \<in> set xs \<Longrightarrow> order_id y \<noteq> order_id r" by (metis imageI)
    then have "filter (\<lambda>y. order_id y = order_id r) xs = []" by (simp add: filter_empty_conv)
    with True show ?thesis by simp
  next
    case False
    with Cons.prems have r: "r \<in> set xs" and d: "distinct (map order_id xs)"
      and "order_id x \<notin> order_id ` set xs"
      by simp_all
    from this(3) r have "order_id x \<noteq> order_id r" by (metis imageI)
    with Cons.IH [OF d r] show ?thesis by simp
  qed
qed

lemma level_orders_member:
  "r \<in> set (level_orders levels) \<longleftrightarrow> (\<exists>lvl\<in>set levels. r \<in> set (snd lvl))"
  by (auto simp: level_orders_def)

lemma distinct_level_queue:
  "distinct (map order_id (level_orders levels)) \<Longrightarrow> (p, queue) \<in> set levels \<Longrightarrow>
   distinct (map order_id queue)"
  by (induction levels) auto

text \<open>On a well-formed side, lookup by price reaches the queue an order rests in.\<close>

lemma side_lookup:
  assumes ok: "list_all (level_ok s) levels" and d: "distinct (map fst levels)"
    and r: "r \<in> set (level_orders levels)"
  shows "\<exists>queue. map_of levels (order_price r) = Some queue \<and> r \<in> set queue \<and> queue \<noteq> []"
proof -
  from r obtain p queue where lvl: "(p, queue) \<in> set levels" "r \<in> set queue"
    by (auto simp: level_orders_member)
  with ok have "level_ok s (p, queue)" by (auto simp: list_all_iff)
  with lvl(2) have "order_price r = p" "queue \<noteq> []" by (auto simp: level_ok_def)
  moreover from d lvl(1) have "map_of levels p = Some queue" by (rule map_of_is_SomeI)
  ultimately show ?thesis using lvl(2) by simp
qed

lemma book_inv_side:
  assumes "book_inv b"
  shows "list_all (level_ok s) (side_levels s b)" and "distinct (map fst (side_levels s b))"
  using assms
  by (cases s; simp add: book_inv_def side_levels_def sorted_wrt_less_distinct
      sorted_wrt_greater_distinct)+

lemma book_inv_resting_side:
  assumes inv: "book_inv b" and r: "r \<in> set (resting b)"
  shows "r \<in> set (level_orders (side_levels (order_side r) b))"
proof (cases "r \<in> set (level_orders (bids b))")
  case True
  from inv have "list_all (level_ok Buy) (bids b)" by (simp add: book_inv_def)
  from levels_ok_orders [OF this True] True show ?thesis by (simp add: side_levels_def)
next
  case False
  with r have a: "r \<in> set (level_orders (asks b))" by (simp add: resting_def)
  from inv have "list_all (level_ok Sell) (asks b)" by (simp add: book_inv_def)
  from levels_ok_orders [OF this a] a show ?thesis by (simp add: side_levels_def)
qed

lemma book_inv_queue_at:
  assumes inv: "book_inv b" and r: "r \<in> set (resting b)"
  shows "r \<in> set (queue_at (order_side r) (order_price r) b)"
    and "distinct (map order_id (queue_at (order_side r) (order_price r) b))"
proof -
  let ?levels = "side_levels (order_side r) b"
  from side_lookup [OF book_inv_side [OF inv] book_inv_resting_side [OF inv r]]
  obtain queue where q: "map_of ?levels (order_price r) = Some queue" "r \<in> set queue"
    by blast
  from q show "r \<in> set (queue_at (order_side r) (order_price r) b)"
    by (simp add: queue_at_def level_queue_def)
  from inv have "distinct (map order_id (level_orders (bids b)))"
    "distinct (map order_id (level_orders (asks b)))"
    by (simp_all add: book_inv_def index_ok_def resting_def)
  then have "distinct (map order_id (level_orders ?levels))"
    by (simp add: side_levels_def)
  from distinct_level_queue [OF this map_of_SomeD [OF q(1)]] q(1)
  show "distinct (map order_id (queue_at (order_side r) (order_price r) b))"
    by (simp add: queue_at_def level_queue_def)
qed

lemma book_inv_consistent:
  assumes inv: "book_inv b"
  shows "index_consistent b"
proof -
  from inv have iok: "index_ok (id_index b) (resting b)" by (simp add: book_inv_def)
  have 1: "\<exists>r. filter (\<lambda>x. order_id x = i) (queue_at s p b) = [r] \<and> order_qty r > 0
              \<and> filter (\<lambda>x. order_id x = i) (resting b) = [r]"
    if "id_index b i = Some (s, p)" for i s p
  proof -
    from that iok obtain r where r: "r \<in> set (resting b)" "order_id r = i"
      by (auto simp: index_ok_def)
    with iok that have loc: "order_side r = s" "order_price r = p"
      by (auto simp: index_ok_def)
    from book_inv_queue_at [OF inv r(1)] filter_id_single [of "queue_at s p b" r]
    have "filter (\<lambda>x. order_id x = i) (queue_at s p b) = [r]"
      by (simp add: loc r(2))
    moreover from iok filter_id_single [of "resting b" r] r
    have "filter (\<lambda>x. order_id x = i) (resting b) = [r]"
      by (simp add: index_ok_def)
    moreover from book_inv_resting [OF inv r(1)] have "order_qty r > 0" .
    ultimately show ?thesis by blast
  qed
  have 2: "id_index b (order_id r) = Some (order_side r, order_price r) \<and>
       r \<in> set (queue_at (order_side r) (order_price r) b)"
    if "r \<in> set (resting b)" for r
    using iok that book_inv_queue_at(1) [OF inv that] by (simp add: index_ok_def)
  have 3: "p \<in> fst ` set (side_levels s b) \<longleftrightarrow> queue_at s p b \<noteq> []" for s p
  proof
    assume "p \<in> fst ` set (side_levels s b)"
    then obtain queue where lvl: "(p, queue) \<in> set (side_levels s b)" by auto
    with book_inv_side(1) [OF inv, of s] have "level_ok s (p, queue)" by (auto simp: list_all_iff)
    then have "queue \<noteq> []" by (simp add: level_ok_def)
    moreover from book_inv_side(2) [OF inv, of s] lvl have "map_of (side_levels s b) p = Some queue"
      by (rule map_of_is_SomeI)
    ultimately show "queue_at s p b \<noteq> []" by (simp add: queue_at_def level_queue_def)
  next
    assume "queue_at s p b \<noteq> []"
    then obtain queue where "map_of (side_levels s b) p = Some queue"
      by (auto simp: queue_at_def level_queue_def split: option.splits)
    from map_of_SomeD [OF this] show "p \<in> fst ` set (side_levels s b)" by force
  qed
  from 1 2 3 show ?thesis unfolding index_consistent_def by blast
qed




section \<open>Arrival order within a level\<close>

fun opposite :: "Side \<Rightarrow> Side" where
  "opposite Buy = Sell"
| "opposite Sell = Buy"

lemma level_queue_simps [simp]:
  "level_queue [] p = []"
  "level_queue ((px, queue) # rest) p = (if p = px then queue else level_queue rest p)"
  by (simp_all add: level_queue_def)

lemma level_queue_absent: "p \<notin> set (map fst levels) \<Longrightarrow> level_queue levels p = []"
  by (induction levels) auto

text \<open>
  Crossing takes orders from the head of a queue only: every queue of the crossed side
  is afterwards a suffix of what it was, up to the remaining quantities.
\<close>

lemma cross_level_queue:
  assumes "cross cmp ord levels idx = (ord', levels', idx', ts)"
    and "distinct (map fst levels)"
  shows "\<exists>k. map strip (level_queue levels' p) = drop k (map strip (level_queue levels p))"
  using assms
proof (induction rule: cross_induct)
  case (Nil ord idx)
  show ?case by (intro exI [of _ 0]) simp
next
  case (Stop ord px queue rest idx)
  show ?case by (intro exI [of _ 0]) simp
next
  case (Partial ord px queue rest idx ord1 queue1 idx1 ts1)
  from match_level_shape [OF Partial(3)] obtain k where
    "map strip queue1 = drop k (map strip queue)"
    by blast
  then show ?case by (cases "p = px") (auto intro: exI [of _ 0])
next
  case (Full ord px queue rest idx ord1 idx1 ts1 ord2 levels2 idx2 ts2)
  from Full(6) have new: "px \<notin> set (map fst rest)" and d: "distinct (map fst rest)" by simp_all
  show ?case
  proof (cases "p = px")
    case True
    from cross_keys_subset [OF Full(4)] new have "px \<notin> set (map fst levels2)" by blast
    then have "level_queue levels2 px = []" by (rule level_queue_absent)
    with True show ?thesis by (intro exI [of _ "length queue"]) simp
  next
    case False
    with Full(5) [OF d] show ?thesis by simp
  qed
qed

lemma level_push_back_queue_asks:
  "sorted_wrt (<) (map fst levels) \<Longrightarrow>
   level_queue (level_push_back (<) ord levels) p
     = (if p = order_price ord then level_queue levels p @ [ord] else level_queue levels p)"
proof (induction levels)
  case Nil
  show ?case by simp
next
  case (Cons lvl rest)
  obtain px queue where lvl: "lvl = (px, queue)" by (cases lvl)
  from Cons.prems have above: "\<forall>k\<in>set (map fst rest). px < k" and rest: "sorted_wrt (<) (map fst rest)"
    by (simp_all add: lvl)
  consider "order_price ord < px" | "px < order_price ord" | "px = order_price ord" by linarith
  then show ?case
  proof cases
    case 1
    with above have "order_price ord \<notin> set (map fst rest)" by auto
    then have "level_queue rest (order_price ord) = []" by (rule level_queue_absent)
    with 1 show ?thesis by (simp add: lvl)
  next
    case 2
    with Cons.IH [OF rest] show ?thesis by (cases "p = order_price ord") (simp_all add: lvl)
  next
    case 3
    then show ?thesis by (simp add: lvl)
  qed
qed

lemma level_push_back_queue_bids:
  "sorted_wrt (>) (map fst levels) \<Longrightarrow>
   level_queue (level_push_back (>) ord levels) p
     = (if p = order_price ord then level_queue levels p @ [ord] else level_queue levels p)"
proof (induction levels)
  case Nil
  show ?case by simp
next
  case (Cons lvl rest)
  obtain px queue where lvl: "lvl = (px, queue)" by (cases lvl)
  from Cons.prems have below: "\<forall>k\<in>set (map fst rest). k < px" and rest: "sorted_wrt (>) (map fst rest)"
    by (simp_all add: lvl)
  consider "order_price ord > px" | "px > order_price ord" | "px = order_price ord" by linarith
  then show ?case
  proof cases
    case 1
    with below have "order_price ord \<notin> set (map fst rest)" by auto
    then have "level_queue rest (order_price ord) = []" by (rule level_queue_absent)
    with 1 show ?thesis by (simp add: lvl)
  next
    case 2
    with Cons.IH [OF rest] show ?thesis by (cases "p = order_price ord") (simp_all add: lvl)
  next
    case 3
    then show ?thesis by (simp add: lvl)
  qed
qed

lemma enqueue_queue_at:
  assumes "book_inv b"
  shows "queue_at s p (enqueue ord b)
     = (if s = order_side ord \<and> p = order_price ord then queue_at s p b @ [ord]
        else queue_at s p b)"
proof -
  from assms have "sorted_wrt (>) (map fst (bids b))" "sorted_wrt (<) (map fst (asks b))"
    by (simp_all add: book_inv_def)
  then show ?thesis
    by (cases s; cases "order_side ord")
       (simp_all add: queue_at_def side_levels_def enqueue_def level_push_back_queue_asks
          level_push_back_queue_bids)
qed

lemma add_order_queue_at:
  assumes inv: "book_inv b"
  shows "\<exists>k tl. map strip (queue_at s p (snd (add_order ord b)))
        = drop k (map strip (queue_at s p b)) @ tl \<and>
      (tl = [] \<or> tl = [strip ord] \<and> s = order_side ord \<and> p = order_price ord)"
proof (cases "order_side ord")
  case Buy
  obtain ord' asks' idx' ts where c: "cross (<) ord (asks b) (id_index b) = (ord', asks', idx', ts)"
    by (cases "cross (<) ord (asks b) (id_index b)") auto
  let ?b1 = "b\<lparr>asks := asks', id_index := idx'\<rparr>"
  from inv have "distinct (map fst (asks b))" by (simp add: book_inv_def sorted_wrt_less_distinct)
  from cross_level_queue [OF c this, of p] obtain k where
    k: "map strip (level_queue asks' p) = drop k (map strip (level_queue (asks b) p))"
    by blast
  have q1: "\<exists>k. map strip (queue_at s p ?b1) = drop k (map strip (queue_at s p b))"
  proof (cases s)
    case Buy
    show ?thesis by (intro exI [of _ 0]) (simp add: queue_at_def side_levels_def Buy)
  next
    case Sell
    with k show ?thesis by (intro exI [of _ k]) (simp add: queue_at_def side_levels_def)
  qed
  then obtain k1 where k1: "map strip (queue_at s p ?b1) = drop k1 (map strip (queue_at s p b))"
    by blast
  show ?thesis
  proof (cases "order_qty ord' > 0")
    case False
    with k1 show ?thesis
      by (intro exI [of _ k1] exI [of _ "[]"]) (simp add: add_order_Buy [OF Buy c])
  next
    case True
    from cross_order [OF c] have same: "order_side ord' = order_side ord"
      "order_price ord' = order_price ord" "strip ord' = strip ord"
      by (simp_all add: strip_eq_iff)
    note enq = enqueue_queue_at [OF cross_asks_inv [OF inv c], of s p ord']
    show ?thesis
    proof (cases "s = order_side ord \<and> p = order_price ord")
      case here: True
      with enq same have "queue_at s p (enqueue ord' ?b1) = queue_at s p ?b1 @ [ord']" by simp
      then have "map strip (queue_at s p (enqueue ord' ?b1))
          = drop k1 (map strip (queue_at s p b)) @ [strip ord]"
        by (simp add: k1 same)
      with here True show ?thesis
        by (intro exI [of _ k1] exI [of _ "[strip ord]"]) (simp add: add_order_Buy [OF Buy c])
    next
      case False
      with enq same have "queue_at s p (enqueue ord' ?b1) = queue_at s p ?b1" by auto
      then have "map strip (queue_at s p (enqueue ord' ?b1)) = drop k1 (map strip (queue_at s p b))"
        by (simp add: k1)
      with True show ?thesis
        by (intro exI [of _ k1] exI [of _ "[]"]) (simp add: add_order_Buy [OF Buy c])
    qed
  qed
next
  case Sell
  obtain ord' bids' idx' ts where c: "cross (>) ord (bids b) (id_index b) = (ord', bids', idx', ts)"
    by (cases "cross (>) ord (bids b) (id_index b)") auto
  let ?b1 = "b\<lparr>bids := bids', id_index := idx'\<rparr>"
  from inv have "distinct (map fst (bids b))" by (simp add: book_inv_def sorted_wrt_greater_distinct)
  from cross_level_queue [OF c this, of p] obtain k where
    k: "map strip (level_queue bids' p) = drop k (map strip (level_queue (bids b) p))"
    by blast
  have q1: "\<exists>k. map strip (queue_at s p ?b1) = drop k (map strip (queue_at s p b))"
  proof (cases s)
    case Sell
    show ?thesis by (intro exI [of _ 0]) (simp add: queue_at_def side_levels_def Sell)
  next
    case Buy
    with k show ?thesis by (intro exI [of _ k]) (simp add: queue_at_def side_levels_def)
  qed
  then obtain k1 where k1: "map strip (queue_at s p ?b1) = drop k1 (map strip (queue_at s p b))"
    by blast
  show ?thesis
  proof (cases "order_qty ord' > 0")
    case False
    with k1 show ?thesis
      by (intro exI [of _ k1] exI [of _ "[]"]) (simp add: add_order_Sell [OF Sell c])
  next
    case True
    from cross_order [OF c] have same: "order_side ord' = order_side ord"
      "order_price ord' = order_price ord" "strip ord' = strip ord"
      by (simp_all add: strip_eq_iff)
    note enq = enqueue_queue_at [OF cross_bids_inv [OF inv c], of s p ord']
    show ?thesis
    proof (cases "s = order_side ord \<and> p = order_price ord")
      case here: True
      with enq same have "queue_at s p (enqueue ord' ?b1) = queue_at s p ?b1 @ [ord']" by simp
      then have "map strip (queue_at s p (enqueue ord' ?b1))
          = drop k1 (map strip (queue_at s p b)) @ [strip ord]"
        by (simp add: k1 same)
      with here True show ?thesis
        by (intro exI [of _ k1] exI [of _ "[strip ord]"]) (simp add: add_order_Sell [OF Sell c])
    next
      case False
      with enq same have "queue_at s p (enqueue ord' ?b1) = queue_at s p ?b1" by auto
      then have "map strip (queue_at s p (enqueue ord' ?b1)) = drop k1 (map strip (queue_at s p b))"
        by (simp add: k1)
      with True show ?thesis
        by (intro exI [of _ k1] exI [of _ "[]"]) (simp add: add_order_Sell [OF Sell c])
    qed
  qed
qed

lemma add_order_makers:
  "map maker_id (fst (add_order ord b))
     = take (length (fst (add_order ord b)))
         (map order_id (level_orders (side_levels (opposite (order_side ord)) b)))"
proof (cases "order_side ord")
  case Buy
  obtain ord' asks' idx' ts where c: "cross (<) ord (asks b) (id_index b) = (ord', asks', idx', ts)"
    by (cases "cross (<) ord (asks b) (id_index b)") auto
  from cross_makers [OF c] show ?thesis by (simp add: add_order_Buy [OF Buy c] Buy side_levels_def)
next
  case Sell
  obtain ord' bids' idx' ts where c: "cross (>) ord (bids b) (id_index b) = (ord', bids', idx', ts)"
    by (cases "cross (>) ord (bids b) (id_index b)") auto
  from cross_makers [OF c] show ?thesis by (simp add: add_order_Sell [OF Sell c] Sell side_levels_def)
qed

lemma level_queue_subset: "set (level_queue levels p) \<subseteq> set (level_orders levels)"
  by (induction levels) (auto split: if_splits)

lemma queue_at_subset: "set (queue_at s p b) \<subseteq> set (resting b)"
  using level_queue_subset [of "side_levels s b" p]
  by (cases s) (auto simp: queue_at_def side_levels_def resting_def)

lemma filter_other_ids:
  "i \<notin> order_id ` set xs \<Longrightarrow> filter (\<lambda>r. order_id r \<noteq> i) xs = xs"
proof -
  assume "i \<notin> order_id ` set xs"
  then have "\<And>r. r \<in> set xs \<Longrightarrow> order_id r \<noteq> i" by (metis imageI)
  then show ?thesis by (intro filter_True) blast
qed

lemma erase_id_filter:
  assumes "erase_id i dq = Some dq'" and "distinct (map order_id dq)"
  shows "dq' = filter (\<lambda>r. order_id r \<noteq> i) dq"
proof -
  from erase_id_Some [OF assms(1)] obtain xs r ys where
    s: "dq = xs @ r # ys" "order_id r = i" "dq' = xs @ ys"
    by blast
  from assms(2) have "distinct (map order_id (xs @ r # ys))" by (simp add: s(1))
  from distinct_ids_filter [OF this] s show ?thesis by simp
qed

text \<open>
  Cancelling removes one order from one queue and leaves every queue in its order.
\<close>

lemma cancel_level_queue:
  assumes "cancel_level i price levels = Some levels'"
    and "distinct (map fst levels)" and "distinct (map order_id (level_orders levels))"
  shows "level_queue levels' p = filter (\<lambda>r. order_id r \<noteq> i) (level_queue levels p)"
  using assms
proof (induction levels arbitrary: levels')
  case Nil
  then show ?case by simp
next
  case (Cons lvl rest)
  obtain px dq where lvl: "lvl = (px, dq)" by (cases lvl)
  from Cons.prems(2) have new: "px \<notin> set (map fst rest)" and dk: "distinct (map fst rest)"
    by (simp_all add: lvl)
  from Cons.prems(3) have ddq: "distinct (map order_id dq)"
    and drest: "distinct (map order_id (level_orders rest))"
    and disj: "order_id ` set dq \<inter> order_id ` set (level_orders rest) = {}"
    by (simp_all add: lvl)
  show ?case
  proof (cases "px = price")
    case True
    with Cons.prems(1) obtain dq' where e: "erase_id i dq = Some dq'"
      and l': "levels' = (if dq' = [] then rest else (px, dq') # rest)"
      by (auto simp: lvl split: option.splits)
    from erase_id_filter [OF e ddq] have dq': "dq' = filter (\<lambda>r. order_id r \<noteq> i) dq" .
    from e have "i \<in> order_id ` set dq" by (metis erase_id_None option.distinct(1))
    with disj have "i \<notin> order_id ` set (level_orders rest)" by blast
    with level_queue_subset [of rest p] have "i \<notin> order_id ` set (level_queue rest p)" by blast
    then have other: "filter (\<lambda>r. order_id r \<noteq> i) (level_queue rest p) = level_queue rest p"
      by (rule filter_other_ids)
    from new have "level_queue rest px = []" by (rule level_queue_absent)
    with other dq' show ?thesis by (auto simp: l' lvl)
  next
    case False
    with Cons.prems(1) obtain rest' where c: "cancel_level i price rest = Some rest'"
      and l': "levels' = (px, dq) # rest'"
      by (auto simp: lvl)
    from cancel_level_Some [OF c] have "i \<in> order_id ` set (level_orders rest)" by force
    with disj have "i \<notin> order_id ` set dq" by blast
    then have "filter (\<lambda>r. order_id r \<noteq> i) dq = dq" by (rule filter_other_ids)
    with Cons.IH [OF c dk drest] show ?thesis by (simp add: l' lvl)
  qed
qed

lemma cancel_queue_at:
  assumes inv: "book_inv b"
  shows "queue_at s p (snd (cancel i b)) = filter (\<lambda>r. order_id r \<noteq> i) (queue_at s p b)"
proof (cases "fst (cancel i b)")
  case False
  with inv have "i \<notin> order_id ` set (resting b)" by (simp add: cancel_iff)
  with queue_at_subset [of s p b] have "i \<notin> order_id ` set (queue_at s p b)" by blast
  from filter_other_ids [OF this] False show ?thesis by (simp add: cancel_False)
next
  case True
  then obtain side price where idx: "id_index b i = Some (side, price)"
    by (auto simp: cancel_def split: option.splits)
  from inv have d: "distinct (map order_id (level_orders (bids b)))"
    "distinct (map order_id (level_orders (asks b)))"
    and disj: "order_id ` set (level_orders (bids b)) \<inter> order_id ` set (level_orders (asks b)) = {}"
    and dk: "distinct (map fst (bids b))" "distinct (map fst (asks b))"
    by (simp_all add: book_inv_def index_ok_def resting_def sorted_wrt_less_distinct
        sorted_wrt_greater_distinct)
  show ?thesis
  proof (cases side)
    case Buy
    with True idx obtain bids' where c: "cancel_level i price (bids b) = Some bids'"
      and b': "snd (cancel i b) = b\<lparr>bids := bids', id_index := (id_index b)(i := None)\<rparr>"
      by (auto simp: cancel_def split: option.splits)
    show ?thesis
    proof (cases s)
      case s: Buy
      from cancel_level_queue [OF c dk(1) d(1), of p] show ?thesis
        by (simp add: queue_at_def side_levels_def b' s)
    next
      case s: Sell
      from cancel_level_Some [OF c] have "i \<in> order_id ` set (level_orders (bids b))" by force
      with disj have "i \<notin> order_id ` set (level_orders (asks b))" by blast
      with level_queue_subset [of "asks b" p] have "i \<notin> order_id ` set (level_queue (asks b) p)"
        by blast
      from filter_other_ids [OF this] show ?thesis
        by (simp add: queue_at_def side_levels_def b' s)
    qed
  next
    case Sell
    with True idx obtain asks' where c: "cancel_level i price (asks b) = Some asks'"
      and b': "snd (cancel i b) = b\<lparr>asks := asks', id_index := (id_index b)(i := None)\<rparr>"
      by (auto simp: cancel_def split: option.splits)
    show ?thesis
    proof (cases s)
      case s: Sell
      from cancel_level_queue [OF c dk(2) d(2), of p] show ?thesis
        by (simp add: queue_at_def side_levels_def b' s)
    next
      case s: Buy
      from cancel_level_Some [OF c] have "i \<in> order_id ` set (level_orders (asks b))" by force
      with disj have "i \<notin> order_id ` set (level_orders (bids b))" by blast
      with level_queue_subset [of "bids b" p] have "i \<notin> order_id ` set (level_queue (bids b) p)"
        by blast
      from filter_other_ids [OF this] show ?thesis
        by (simp add: queue_at_def side_levels_def b' s)
    qed
  qed
qed

section \<open>Scenario S2: the synchronous demo\<close>

text \<open>
  C1 (as the code behaves). Starting from the empty book, after Sell id=1 @101 x50,
  Sell id=2 @102 x40, Buy id=3 @100 x70 and Buy id=4 @102 x80, whatever the timestamps:
  the first three calls return no trade; the call for order 4 returns exactly the trades
  (maker=1, taker=4, px=101, qty=50) and (maker=2, taker=4, px=102, qty=30), in this
  order; the crossing loop leaves order 4 with quantity 0, so it is not enqueued; the bids
  hold only order 3 with quantity 70 at price 100. The asks are not empty: order 2 was
  filled for 30 of its 40 and rests at price 102 with quantity 10.
\<close>

theorem sync_demo_order4:
  "fst (run [Add (mk t1 1 Sell 101 50), Add (mk t2 2 Sell 102 40), Add (mk t3 3 Buy 100 70),
             Add (mk t4 4 Buy 102 80)] empty_book)
     = [Trades [], Trades [], Trades [],
        Trades [\<lparr>maker_id = 1, taker_id = 4, trade_price = 101, trade_qty = 50\<rparr>,
                \<lparr>maker_id = 2, taker_id = 4, trade_price = 102, trade_qty = 30\<rparr>]]
   \<and> order_qty (fst (cross (<) (mk t4 4 Buy 102 80)
         (asks (snd (run [Add (mk t1 1 Sell 101 50), Add (mk t2 2 Sell 102 40),
                          Add (mk t3 3 Buy 100 70)] empty_book)))
         (id_index (snd (run [Add (mk t1 1 Sell 101 50), Add (mk t2 2 Sell 102 40),
                              Add (mk t3 3 Buy 100 70)] empty_book))))) = 0
   \<and> bids (snd (run [Add (mk t1 1 Sell 101 50), Add (mk t2 2 Sell 102 40),
                      Add (mk t3 3 Buy 100 70), Add (mk t4 4 Buy 102 80)] empty_book))
     = [(100, [mk t3 3 Buy 100 70])]
   \<and> asks (snd (run [Add (mk t1 1 Sell 101 50), Add (mk t2 2 Sell 102 40),
                      Add (mk t3 3 Buy 100 70), Add (mk t4 4 Buy 102 80)] empty_book))
     = [(102, [mk t2 2 Sell 102 10])]"
  by (simp add: mk_def add_order_def empty_book_def enqueue_def cross.simps)

text \<open>
  The scenario as the specification states it, with asks empty at the end, fails (all
  timestamps 0).
\<close>

theorem sync_demo_asks_not_empty:
  "\<not> (fst (run [Add (mk 0 1 Sell 101 50), Add (mk 0 2 Sell 102 40), Add (mk 0 3 Buy 100 70),
                 Add (mk 0 4 Buy 102 80)] empty_book)
        = [Trades [], Trades [], Trades [],
           Trades [\<lparr>maker_id = 1, taker_id = 4, trade_price = 101, trade_qty = 50\<rparr>,
                   \<lparr>maker_id = 2, taker_id = 4, trade_price = 102, trade_qty = 30\<rparr>]]
      \<and> asks (snd (run [Add (mk 0 1 Sell 101 50), Add (mk 0 2 Sell 102 40),
                         Add (mk 0 3 Buy 100 70), Add (mk 0 4 Buy 102 80)] empty_book)) = []
      \<and> bids (snd (run [Add (mk 0 1 Sell 101 50), Add (mk 0 2 Sell 102 40),
                         Add (mk 0 3 Buy 100 70), Add (mk 0 4 Buy 102 80)] empty_book))
        = [(100, [mk 0 3 Buy 100 70])])"
  by (simp add: mk_def add_order_def empty_book_def enqueue_def cross.simps)

section \<open>Orders without quantity\<close>

text \<open>
  C10. For every order with \<open>qty \<le> 0\<close>, on either side and on any book, \<^verbatim>\<open>add_order\<close>
  returns the empty trade list and the book it was given: bids, asks and id index are
  unchanged. The function has no error result; the order is dropped without a trace.
\<close>

theorem add_order_nonpositive_qty:
  "order_qty ord \<le> 0 \<Longrightarrow> add_order ord b = ([], b)"
  by (cases "asks b"; cases "bids b") (auto simp: add_order_def cross.simps)

theorem add_order_nonpositive_qty_witness:
  "order_qty (mk 7 9 Buy 102 0) \<le> 0
   \<and> add_order (mk 7 9 Buy 102 0) (snd (add_order (mk 5 1 Sell 101 50) empty_book))
       = ([], snd (add_order (mk 5 1 Sell 101 50) empty_book))
   \<and> asks (snd (add_order (mk 5 1 Sell 101 50) empty_book)) = [(101, [mk 5 1 Sell 101 50])]"
  using add_order_nonpositive_qty [of "mk 7 9 Buy 102 0" "snd (add_order (mk 5 1 Sell 101 50) empty_book)"]
  by (simp add: mk_def add_order_def empty_book_def enqueue_def cross.simps)

section \<open>The claims about runs of submissions\<close>

text \<open>
  C3. For any sequence \<open>os\<close> of submitted orders, each with \<open>qty > 0\<close> and an id of its
  own, and any \<open>n\<close>, the book after the first \<open>n\<close> calls of \<^verbatim>\<open>add_order\<close> is not crossed:
  the bids are empty, or the asks are empty, or \<^verbatim>\<open>best_bid() < best_ask()\<close>. Moreover no
  resting buy order has a price at or above the price of a resting sell order.
\<close>

theorem book_never_crossed:
  assumes "well_formed (map Add os)" and "b = snd (run (map Add (take n os)) empty_book)"
  shows "(bids b = [] \<or> asks b = [] \<or>
      (\<exists>pb pa. best_bid b = Some pb \<and> best_ask b = Some pa \<and> pb < pa)) \<and>
     (\<forall>rb\<in>set (level_orders (bids b)). \<forall>ra\<in>set (level_orders (asks b)).
        order_price rb < order_price ra)"
proof -
  from run_Add_inv(1) [OF assms(1), of n] assms(2) have inv: "book_inv b" by simp
  from book_inv_uncrossed [OF inv] book_inv_no_crossing_orders [OF inv] show ?thesis by blast
qed

theorem book_never_crossed_witness:
  "well_formed (map Add [mk 0 1 Sell 101 50, mk 0 2 Sell 102 40, mk 0 3 Buy 100 70, mk 0 4 Buy 102 80])
   \<and> best_bid (snd (run (map Add (take 4 [mk 0 1 Sell 101 50, mk 0 2 Sell 102 40,
         mk 0 3 Buy 100 70, mk 0 4 Buy 102 80])) empty_book)) = Some 100
   \<and> best_ask (snd (run (map Add (take 4 [mk 0 1 Sell 101 50, mk 0 2 Sell 102 40,
         mk 0 3 Buy 100 70, mk 0 4 Buy 102 80])) empty_book)) = Some 102
   \<and> (\<exists>pb pa. best_bid (snd (run (map Add (take 4 [mk 0 1 Sell 101 50, mk 0 2 Sell 102 40,
         mk 0 3 Buy 100 70, mk 0 4 Buy 102 80])) empty_book)) = Some pb
       \<and> best_ask (snd (run (map Add (take 4 [mk 0 1 Sell 101 50, mk 0 2 Sell 102 40,
         mk 0 3 Buy 100 70, mk 0 4 Buy 102 80])) empty_book)) = Some pa \<and> pb < pa)"
proof -
  let ?os = "[mk 0 1 Sell 101 50, mk 0 2 Sell 102 40, mk 0 3 Buy 100 70, mk 0 4 Buy 102 80]"
  let ?b = "snd (run (map Add (take 4 ?os)) empty_book)"
  have wf: "well_formed (map Add ?os)" by (simp add: well_formed_def mk_def)
  have bb: "best_bid ?b = Some 100" and ba: "best_ask ?b = Some 102"
    by (simp_all add: mk_def add_order_def empty_book_def enqueue_def cross_cons
        best_bid_def best_ask_def)
  from book_never_crossed [OF wf refl, of 4] bb ba
  have "\<exists>pb pa. best_bid ?b = Some pb \<and> best_ask ?b = Some pa \<and> pb < pa"
    by (auto simp: best_bid_def best_ask_def split: list.splits)
  with wf bb ba show ?thesis by blast
qed

text \<open>
  C4 (as the code behaves). For any sequence of submissions without cancellations, each
  with \<open>qty > 0\<close> and an id of its own, the total submitted quantity equals twice the total
  traded quantity plus the total remaining quantity of the orders resting in the book: a
  trade of quantity \<open>q\<close> takes \<open>q\<close> from its taker and \<open>q\<close> from its maker, so it counts
  once for each of the two submissions.
\<close>

theorem quantity_conserved:
  "well_formed (map Add os) \<Longrightarrow>
   sum_list (map order_qty os)
     = 2 * sum_list (map trade_qty (concat (map trades_of (fst (run (map Add os) empty_book)))))
       + resting_qty (snd (run (map Add os) empty_book))"
proof (induction os rule: rev_induct)
  case Nil
  show ?case by (simp add: resting_qty_def resting_def empty_book_def)
next
  case (snoc ord os)
  let ?b = "snd (run (map Add os) empty_book)"
  from snoc.prems have wf: "well_formed (map Add os)" and pos: "order_qty ord > 0"
    by (auto simp: well_formed_def submitted_append)
  from run_inv [OF wf] have inv: "book_inv ?b" by simp
  from add_order_conserves [OF inv pos] snoc.IH [OF wf] show ?case
    by (simp add: run_append run_Cons apply_op_Add del: run.simps(2) apply_op.simps)
qed

theorem quantity_conserved_witness:
  "well_formed (map Add [mk 0 1 Sell 101 50, mk 0 2 Buy 101 30])
   \<and> sum_list (map order_qty [mk 0 1 Sell 101 50, mk 0 2 Buy 101 30]) = 80
   \<and> sum_list (map trade_qty (concat (map trades_of
         (fst (run (map Add [mk 0 1 Sell 101 50, mk 0 2 Buy 101 30]) empty_book))))) = 30
   \<and> resting_qty (snd (run (map Add [mk 0 1 Sell 101 50, mk 0 2 Buy 101 30]) empty_book)) = 20"
proof -
  let ?os = "[mk 0 1 Sell 101 50, mk 0 2 Buy 101 30]"
  have wf: "well_formed (map Add ?os)" by (simp add: well_formed_def mk_def)
  have sub: "sum_list (map order_qty ?os) = 80" by (simp add: mk_def)
  have tr: "sum_list (map trade_qty (concat (map trades_of (fst (run (map Add ?os) empty_book))))) = 30"
    by (simp add: mk_def add_order_def empty_book_def enqueue_def cross_cons)
  from quantity_conserved [OF wf] sub tr
  have "resting_qty (snd (run (map Add ?os) empty_book)) = 20" by simp
  with wf sub tr show ?thesis by blast
qed

text \<open>
  Counted once, the traded quantity does not balance the books: after Sell id=1 @101 x50
  and Buy id=2 @101 x30, 80 were submitted, 30 traded and 20 rest.
\<close>

theorem quantity_single_count_fails:
  "\<not> (sum_list (map order_qty [mk 0 1 Sell 101 50, mk 0 2 Buy 101 30])
        = sum_list (map trade_qty (concat (map trades_of
            (fst (run (map Add [mk 0 1 Sell 101 50, mk 0 2 Buy 101 30]) empty_book)))))
          + resting_qty (snd (run (map Add [mk 0 1 Sell 101 50, mk 0 2 Buy 101 30]) empty_book)))"
  by (simp add: mk_def add_order_def empty_book_def enqueue_def cross_cons
      resting_qty_def resting_def)

text \<open>
  C2. For any sequence \<open>os\<close> of submitted orders, each with \<open>qty > 0\<close> and an id of its
  own, every trade the \<open>i\<close>-th call of \<^verbatim>\<open>add_order\<close> emits has a strictly positive
  quantity, names the \<open>i\<close>-th order as its taker, and names as its maker an order
  submitted earlier, whose price is the trade's price, whatever the taker's limit.
\<close>

theorem trades_at_maker_price:
  assumes wf: "well_formed (map Add os)" and i: "i < length os"
    and res: "fst (run (map Add os) empty_book) ! i = Trades ts" and t: "t \<in> set ts"
  shows "trade_qty t > 0 \<and> taker_id t = order_id (os ! i) \<and>
     (\<exists>j<i. maker_id t = order_id (os ! j) \<and> trade_price t = order_price (os ! j))"
proof -
  let ?b = "snd (run (map Add (take i os)) empty_book)"
  from i have "fst (run (map Add os) empty_book) ! i
      = fst (apply_op (map Add os ! i) (snd (run (take i (map Add os)) empty_book)))"
    by (intro run_nth) simp
  with i res have ts: "ts = fst (add_order (os ! i) ?b)"
    by (simp add: apply_op_Add take_map del: apply_op.simps)
  have inv: "book_inv ?b"
    and sub: "strip ` set (resting ?b) \<subseteq> strip ` set (take i os)"
    by (rule run_Add_inv [OF wf])+
  from add_order_trades [OF inv] t ts obtain m where m: "taker_id t = order_id (os ! i)"
    "trade_qty t > 0" "m \<in> set (resting ?b)" "maker_id t = order_id m"
    "trade_price t = order_price m"
    by blast
  from m(3) sub obtain s where s: "s \<in> set (take i os)" "strip m = strip s" by auto
  from s(1) obtain j where j: "j < length (take i os)" "take i os ! j = s"
    by (auto simp: in_set_conv_nth)
  with i have "j < i" "os ! j = s" by simp_all
  with s(2) m show ?thesis by (auto simp: strip_eq_iff)
qed

theorem trades_at_maker_price_witness:
  "well_formed (map Add [mk 0 1 Sell 101 50, mk 0 2 Buy 105 30])
   \<and> fst (run (map Add [mk 0 1 Sell 101 50, mk 0 2 Buy 105 30]) empty_book) ! 1
       = Trades [\<lparr>maker_id = 1, taker_id = 2, trade_price = 101, trade_qty = 30\<rparr>]
   \<and> (\<exists>j<1. maker_id \<lparr>maker_id = 1, taker_id = 2, trade_price = 101, trade_qty = 30\<rparr>
            = order_id ([mk 0 1 Sell 101 50, mk 0 2 Buy 105 30] ! j)
        \<and> trade_price \<lparr>maker_id = 1, taker_id = 2, trade_price = 101, trade_qty = 30\<rparr>
            = order_price ([mk 0 1 Sell 101 50, mk 0 2 Buy 105 30] ! j))"
proof -
  let ?os = "[mk 0 1 Sell 101 50, mk 0 2 Buy 105 30]"
  let ?t = "\<lparr>maker_id = 1, taker_id = 2, trade_price = 101, trade_qty = 30\<rparr>"
  have wf: "well_formed (map Add ?os)" by (simp add: well_formed_def mk_def)
  have res: "fst (run (map Add ?os) empty_book) ! 1 = Trades [?t]"
    by (simp add: mk_def add_order_def empty_book_def enqueue_def cross_cons)
  have "(1::nat) < length ?os" "?t \<in> set [?t]" by simp_all
  from trades_at_maker_price [OF wf this(1) res this(2)] wf res show ?thesis by blast
qed


section \<open>The claims about the index and cancellation\<close>

text \<open>
  C6. Starting from the empty book, after every operation of any interleaving of
  \<^verbatim>\<open>add_order\<close> calls (each order with \<open>qty > 0\<close> and an id of its own) and \<^verbatim>\<open>cancel\<close>
  calls, the id index is consistent with the ladders: every indexed id names exactly one
  resting order, which has a positive remaining quantity and lies in the queue at the
  recorded side and price; every resting order is indexed under its own side and price;
  and a price level is present exactly when its queue is not empty.
\<close>

theorem index_consistency:
  assumes "well_formed ops"
  shows "index_consistent (snd (run (take n ops) empty_book))"
proof -
  from assms have "well_formed (take n ops)" by (rule well_formed_take)
  from run_inv [OF this] have "book_inv (snd (run (take n ops) empty_book))" by simp
  then show ?thesis by (rule book_inv_consistent)
qed

theorem index_consistency_witness:
  "well_formed [Add (mk 0 1 Sell 101 50), Add (mk 0 2 Sell 102 40), Add (mk 0 3 Buy 100 70),
      Cancel 2, Add (mk 0 4 Buy 102 80)]
   \<and> index_consistent (snd (run (take 5 [Add (mk 0 1 Sell 101 50), Add (mk 0 2 Sell 102 40),
        Add (mk 0 3 Buy 100 70), Cancel 2, Add (mk 0 4 Buy 102 80)]) empty_book))
   \<and> id_index (snd (run (take 5 [Add (mk 0 1 Sell 101 50), Add (mk 0 2 Sell 102 40),
        Add (mk 0 3 Buy 100 70), Cancel 2, Add (mk 0 4 Buy 102 80)]) empty_book)) 4
       = Some (Buy, 102)
   \<and> queue_at Buy 102 (snd (run (take 5 [Add (mk 0 1 Sell 101 50), Add (mk 0 2 Sell 102 40),
        Add (mk 0 3 Buy 100 70), Cancel 2, Add (mk 0 4 Buy 102 80)]) empty_book))
       = [mk 0 4 Buy 102 30]"
proof -
  let ?ops = "[Add (mk 0 1 Sell 101 50), Add (mk 0 2 Sell 102 40), Add (mk 0 3 Buy 100 70),
      Cancel 2, Add (mk 0 4 Buy 102 80)]"
  have wf: "well_formed ?ops" by (simp add: well_formed_def mk_def)
  have "id_index (snd (run (take 5 ?ops) empty_book)) 4 = Some (Buy, 102)"
    "queue_at Buy 102 (snd (run (take 5 ?ops) empty_book)) = [mk 0 4 Buy 102 30]"
    by (simp_all add: mk_def add_order_def cancel_def empty_book_def enqueue_def cross_cons
        queue_at_def level_queue_def side_levels_def)
  with wf index_consistency [OF wf, of 5] show ?thesis by blast
qed



section \<open>The claim about arrival order\<close>

text \<open>
  C5. In any book \<open>b\<close> reached from the empty book by \<^verbatim>\<open>add_order\<close> calls (each order
  with \<open>qty > 0\<close> and an id of its own) and \<^verbatim>\<open>cancel\<close> calls, and for any incoming order:
  the makers of the trades, in the order of the trades, are the first resting orders of
  the opposite side, taken level by level from the best price and within a level from
  the head of its queue; every queue after the call is the queue before without some of
  its first orders (quantities apart), followed by the incoming order if its remainder
  was enqueued there; and a \<^verbatim>\<open>cancel\<close> leaves in every queue the other orders in their
  order. In particular Sell id=1 @101 x10, Sell id=2 @101 x10, Buy id=3 @101 x15 into the
  empty book give the trades (1,3,101,10) then (2,3,101,5) and leave only order 2 with
  quantity 5 at price 101 on the asks, and no bid.
\<close>

theorem fifo_within_level:
  assumes wf: "well_formed ops" and b: "b = snd (run ops empty_book)"
  shows "map maker_id (fst (add_order ord b))
       = take (length (fst (add_order ord b)))
           (map order_id (level_orders (side_levels (opposite (order_side ord)) b)))
     \<and> (\<forall>s p. \<exists>k tl. map strip (queue_at s p (snd (add_order ord b)))
             = drop k (map strip (queue_at s p b)) @ tl
           \<and> (tl = [] \<or> tl = [strip ord] \<and> s = order_side ord \<and> p = order_price ord))
     \<and> (\<forall>s p i. queue_at s p (snd (cancel i b))
           = filter (\<lambda>r. order_id r \<noteq> i) (queue_at s p b))
     \<and> fst (run [Add (mk t1 1 Sell 101 10), Add (mk t2 2 Sell 101 10),
                 Add (mk t3 3 Buy 101 15)] empty_book)
         = [Trades [], Trades [],
            Trades [\<lparr>maker_id = 1, taker_id = 3, trade_price = 101, trade_qty = 10\<rparr>,
                    \<lparr>maker_id = 2, taker_id = 3, trade_price = 101, trade_qty = 5\<rparr>]]
     \<and> asks (snd (run [Add (mk t1 1 Sell 101 10), Add (mk t2 2 Sell 101 10),
                 Add (mk t3 3 Buy 101 15)] empty_book)) = [(101, [mk t2 2 Sell 101 5])]
     \<and> bids (snd (run [Add (mk t1 1 Sell 101 10), Add (mk t2 2 Sell 101 10),
                 Add (mk t3 3 Buy 101 15)] empty_book)) = []"
proof -
  from run_inv [OF wf] b have inv: "book_inv b" by simp
  show ?thesis
  proof (intro conjI allI)
    show "map maker_id (fst (add_order ord b))
       = take (length (fst (add_order ord b)))
           (map order_id (level_orders (side_levels (opposite (order_side ord)) b)))"
      by (rule add_order_makers)
  next
    fix s p
    show "\<exists>k tl. map strip (queue_at s p (snd (add_order ord b)))
             = drop k (map strip (queue_at s p b)) @ tl
           \<and> (tl = [] \<or> tl = [strip ord] \<and> s = order_side ord \<and> p = order_price ord)"
      by (rule add_order_queue_at [OF inv])
  next
    fix s p i
    show "queue_at s p (snd (cancel i b)) = filter (\<lambda>r. order_id r \<noteq> i) (queue_at s p b)"
      by (rule cancel_queue_at [OF inv])
  qed (simp_all add: mk_def add_order_def empty_book_def enqueue_def cross_cons)
qed

theorem fifo_within_level_witness:
  "well_formed [Add (mk 0 1 Sell 101 10), Add (mk 0 2 Sell 101 10)]
   \<and> queue_at Sell 101 (snd (run [Add (mk 0 1 Sell 101 10), Add (mk 0 2 Sell 101 10)] empty_book))
       = [mk 0 1 Sell 101 10, mk 0 2 Sell 101 10]
   \<and> map maker_id (fst (add_order (mk 0 3 Buy 101 15)
         (snd (run [Add (mk 0 1 Sell 101 10), Add (mk 0 2 Sell 101 10)] empty_book)))) = [1, 2]
   \<and> queue_at Sell 101 (snd (add_order (mk 0 3 Buy 101 15)
         (snd (run [Add (mk 0 1 Sell 101 10), Add (mk 0 2 Sell 101 10)] empty_book))))
       = [mk 0 2 Sell 101 5]
   \<and> queue_at Sell 101 (snd (cancel 1
         (snd (run [Add (mk 0 1 Sell 101 10), Add (mk 0 2 Sell 101 10)] empty_book))))
       = [mk 0 2 Sell 101 10]"
proof -
  define ops where "ops = [Add (mk 0 1 Sell 101 10), Add (mk 0 2 Sell 101 10)]"
  define b where "b = snd (run ops empty_book)"
  have wf: "well_formed ops" by (simp add: ops_def well_formed_def mk_def)
  have bk: "asks b = [(101, [mk 0 1 Sell 101 10, mk 0 2 Sell 101 10])]" "bids b = []"
    unfolding b_def ops_def
    by (simp_all add: mk_def add_order_def empty_book_def enqueue_def cross_cons)
  have q: "queue_at Sell 101 b = [mk 0 1 Sell 101 10, mk 0 2 Sell 101 10]"
    by (simp add: queue_at_def side_levels_def bk)
  have len: "length (fst (add_order (mk 0 3 Buy 101 15) b)) = 2"
    and after: "queue_at Sell 101 (snd (add_order (mk 0 3 Buy 101 15) b)) = [mk 0 2 Sell 101 5]"
    by (simp_all add: add_order_def cross_cons bk mk_def queue_at_def side_levels_def)
  note c = fifo_within_level [OF wf b_def, of "mk 0 3 Buy 101 15"]
  from c have "map maker_id (fst (add_order (mk 0 3 Buy 101 15) b))
       = take (length (fst (add_order (mk 0 3 Buy 101 15) b)))
           (map order_id (level_orders (side_levels (opposite (order_side (mk 0 3 Buy 101 15))) b)))"
    by (rule conjunct1)
  then have makers: "map maker_id (fst (add_order (mk 0 3 Buy 101 15) b)) = [1, 2]"
    unfolding len by (simp add: mk_def side_levels_def bk)
  from c have "\<forall>s p i. queue_at s p (snd (cancel i b))
           = filter (\<lambda>r. order_id r \<noteq> i) (queue_at s p b)"
    by (rule conjunct2 [THEN conjunct2, THEN conjunct1])
  then have "queue_at Sell 101 (snd (cancel 1 b)) = filter (\<lambda>r. order_id r \<noteq> 1) (queue_at Sell 101 b)"
    by blast
  then have cancelled: "queue_at Sell 101 (snd (cancel 1 b)) = [mk 0 2 Sell 101 10]"
    unfolding q by (simp add: mk_def)
  from wf q makers after cancelled show ?thesis unfolding b_def ops_def by (intro conjI)
qed

section \<open>ConcurrentQueue (main.cpp)\<close>

text \<open>
  Every member function holds the mutex \<^verbatim>\<open>m_\<close> for its whole access to \<^verbatim>\<open>q_\<close> and
  \<^verbatim>\<open>closed_\<close>, so a call is one atomic transition of the pair; the notifications of the
  condition variable change nothing in it. \<^verbatim>\<open>push\<close> and \<^verbatim>\<open>close\<close> return \<^verbatim>\<open>void\<close>. The two
  pops return \<^verbatim>\<open>bool\<close> and write \<^verbatim>\<open>out\<close> only when they return true: \<open>Some v\<close> stands for
  \<^verbatim>\<open>true\<close> with \<^verbatim>\<open>out = v\<close>, \<open>None\<close> for \<^verbatim>\<open>false\<close> with \<^verbatim>\<open>out\<close> untouched. A blocking
  \<^verbatim>\<open>pop\<close> whose wait predicate \<^verbatim>\<open>closed_ || !q_.empty()\<close> is false stays in
  \<^verbatim>\<open>cv_.wait\<close>: the model gives no result (the outer \<open>None\<close>) and leaves the queue as it is.
\<close>

record 'a ConcurrentQueue =
  cq_q :: "'a list"
  cq_closed :: bool

definition new_queue :: "'a ConcurrentQueue" where
  "new_queue = \<lparr>cq_q = [], cq_closed = False\<rparr>"

definition push :: "'a \<Rightarrow> 'a ConcurrentQueue \<Rightarrow> 'a ConcurrentQueue" where
  "push v s = (if cq_closed s then s else s\<lparr>cq_q := cq_q s @ [v]\<rparr>)"

definition try_pop :: "'a ConcurrentQueue \<Rightarrow> 'a option \<times> 'a ConcurrentQueue" where
  "try_pop s = (case cq_q s of [] \<Rightarrow> (None, s) | v # rest \<Rightarrow> (Some v, s\<lparr>cq_q := rest\<rparr>))"

definition pop :: "'a ConcurrentQueue \<Rightarrow> ('a option \<times> 'a ConcurrentQueue) option" where
  "pop s =
     (if cq_closed s \<or> cq_q s \<noteq> [] then
        (case cq_q s of [] \<Rightarrow> Some (None, s) | v # rest \<Rightarrow> Some (Some v, s\<lparr>cq_q := rest\<rparr>))
      else None)"

definition close :: "'a ConcurrentQueue \<Rightarrow> 'a ConcurrentQueue" where
  "close s = s\<lparr>cq_closed := True\<rparr>"

text \<open>
  A consumer that calls a pop \<open>n\<close> times and gets a value each time; the values in the
  order received, and the queue left.
\<close>

fun pops :: "nat \<Rightarrow> 'a ConcurrentQueue \<Rightarrow> ('a list \<times> 'a ConcurrentQueue) option" where
  "pops 0 s = Some ([], s)"
| "pops (Suc n) s =
     (case pop s of
        Some (Some v, s') \<Rightarrow>
          (case pops n s' of Some (vs, s'') \<Rightarrow> Some (v # vs, s'') | None \<Rightarrow> None)
      | _ \<Rightarrow> None)"

fun try_pops :: "nat \<Rightarrow> 'a ConcurrentQueue \<Rightarrow> ('a list \<times> 'a ConcurrentQueue) option" where
  "try_pops 0 s = Some ([], s)"
| "try_pops (Suc n) s =
     (case try_pop s of
        (Some v, s') \<Rightarrow>
          (case try_pops n s' of Some (vs, s'') \<Rightarrow> Some (v # vs, s'') | None \<Rightarrow> None)
      | (None, s') \<Rightarrow> None)"

lemma pops_all:
  "cq_q s = vs \<Longrightarrow> pops (length vs) s = Some (vs, s\<lparr>cq_q := []\<rparr>)"
proof (induction vs arbitrary: s)
  case Nil
  then show ?case by simp
next
  case (Cons v vs)
  then have "pop s = Some (Some v, s\<lparr>cq_q := vs\<rparr>)" by (simp add: pop_def)
  moreover have "pops (length vs) (s\<lparr>cq_q := vs\<rparr>) = Some (vs, s\<lparr>cq_q := []\<rparr>)"
    using Cons.IH [of "s\<lparr>cq_q := vs\<rparr>"] by simp
  ultimately show ?case by simp
qed

lemma try_pops_all:
  "cq_q s = vs \<Longrightarrow> try_pops (length vs) s = Some (vs, s\<lparr>cq_q := []\<rparr>)"
proof (induction vs arbitrary: s)
  case Nil
  then show ?case by simp
next
  case (Cons v vs)
  then have "try_pop s = (Some v, s\<lparr>cq_q := vs\<rparr>)" by (simp add: try_pop_def)
  moreover have "try_pops (length vs) (s\<lparr>cq_q := vs\<rparr>) = Some (vs, s\<lparr>cq_q := []\<rparr>)"
    using Cons.IH [of "s\<lparr>cq_q := vs\<rparr>"] by simp
  ultimately show ?case by simp
qed

lemma push_closed: "cq_closed s \<Longrightarrow> push v s = s"
  by (simp add: push_def)

lemma pushes_closed: "cq_closed s \<Longrightarrow> fold push vs s = s"
  by (induction vs) (simp_all add: push_closed)

text \<open>
  C8. For the ConcurrentQueue in any state \<open>s\<close>: a push into a closed queue, and any
  sequence of pushes after \<^verbatim>\<open>close\<close>, leaves the queue exactly as it was, and \<^verbatim>\<open>push\<close> has
  no result that could report it; \<^verbatim>\<open>close\<close> twice is \<^verbatim>\<open>close\<close> once, and \<^verbatim>\<open>close\<close> keeps the
  contents; after \<^verbatim>\<open>close\<close> the values in the queue are returned by as many blocking pops,
  or as many \<^verbatim>\<open>try_pop\<close>s, oldest first, each returning true; the blocking pop that follows
  returns false; and whenever a blocking pop returns false the queue is closed and empty.
\<close>

theorem closed_queue_contract:
  "(cq_closed s \<longrightarrow> push v s = s)
   \<and> fold push vs (close s) = close s
   \<and> close (close s) = close s
   \<and> cq_q (close s) = cq_q s \<and> cq_closed (close s)
   \<and> pops (length (cq_q s)) (close s) = Some (cq_q s, (close s)\<lparr>cq_q := []\<rparr>)
   \<and> try_pops (length (cq_q s)) (close s) = Some (cq_q s, (close s)\<lparr>cq_q := []\<rparr>)
   \<and> pop ((close s)\<lparr>cq_q := []\<rparr>) = Some (None, (close s)\<lparr>cq_q := []\<rparr>)
   \<and> (\<forall>s'. pop s = Some (None, s') \<longrightarrow> cq_closed s \<and> cq_q s = [] \<and> s' = s)"
proof (intro conjI impI allI)
  show "fold push vs (close s) = close s" by (rule pushes_closed) (simp add: close_def)
  show "pops (length (cq_q s)) (close s) = Some (cq_q s, (close s)\<lparr>cq_q := []\<rparr>)"
    by (rule pops_all) (simp add: close_def)
  show "try_pops (length (cq_q s)) (close s) = Some (cq_q s, (close s)\<lparr>cq_q := []\<rparr>)"
    by (rule try_pops_all) (simp add: close_def)
  show "cq_closed s" "cq_q s = []" "s' = s" if "pop s = Some (None, s')" for s'
    using that by (auto simp: pop_def split: if_splits list.splits)
qed (simp_all add: push_def close_def pop_def)

theorem closed_queue_contract_witness:
  "cq_closed (close (fold push [1, 2, 3::nat] new_queue))
   \<and> push 4 (close (fold push [1, 2, 3::nat] new_queue)) = close (fold push [1, 2, 3::nat] new_queue)
   \<and> pops 3 (close (fold push [1, 2, 3::nat] new_queue))
       = Some ([1, 2, 3], (close (fold push [1, 2, 3::nat] new_queue))\<lparr>cq_q := []\<rparr>)
   \<and> pop ((close (fold push [1, 2, 3::nat] new_queue))\<lparr>cq_q := []\<rparr>)
       = Some (None, (close (fold push [1, 2, 3::nat] new_queue))\<lparr>cq_q := []\<rparr>)
   \<and> pop (new_queue :: nat ConcurrentQueue) = None"
proof -
  define s where "s = fold push [1, 2, 3::nat] new_queue"
  have q: "cq_q s = [1, 2, 3]" "length (cq_q s) = 3"
    by (simp_all add: s_def push_def new_queue_def)
  note c = closed_queue_contract [of "close s" 4 "[]" ]
  note d = closed_queue_contract [of s 4 "[]"]
  from d have cl: "cq_closed (close s)" by blast
  from c cl have p: "push 4 (close s) = close s" by blast
  from d have "pops (length (cq_q s)) (close s) = Some (cq_q s, (close s)\<lparr>cq_q := []\<rparr>)"
    by blast
  then have "pops 3 (close s) = Some (cq_q s, (close s)\<lparr>cq_q := []\<rparr>)"
    by (simp only: q(2))
  then have ps: "pops 3 (close s) = Some ([1, 2, 3], (close s)\<lparr>cq_q := []\<rparr>)"
    by (simp only: q(1))
  from d have last: "pop ((close s)\<lparr>cq_q := []\<rparr>) = Some (None, (close s)\<lparr>cq_q := []\<rparr>)"
    by blast
  have "pop (new_queue :: nat ConcurrentQueue) = None" by (simp add: pop_def new_queue_def)
  with cl p ps last show ?thesis unfolding s_def by (intro conjI)
qed

section \<open>AsyncMatchingEngine (main.cpp)\<close>

datatype EventType = TradeBatch | BookSnapshot

record EngineEvent =
  ev_type :: EventType
  ev_trades :: "Trade list"

text \<open>
  The engine runs the worker in \<^verbatim>\<open>run()\<close> beside its callers: producers call \<^verbatim>\<open>submit\<close>,
  consumers \<^verbatim>\<open>poll_event\<close> and \<^verbatim>\<open>wait_event\<close>, and any thread, any number of times, and
  the destructor too, calls \<^verbatim>\<open>shutdown()\<close>. The shared state is the two queues, each
  changed only under its own mutex, and the atomic \<^verbatim>\<open>running_\<close>; the book is touched by
  the worker alone. So an execution is an interleaving of the atomic steps below, and
  the state records where the worker stands and where each call of \<^verbatim>\<open>shutdown()\<close> stands.

  The worker stands before the test of \<^verbatim>\<open>while (running_)\<close>, before \<^verbatim>\<open>inq_.pop(o)\<close>,
  before \<^verbatim>\<open>book_.add_order(o)\<close> with the order it popped, before the test of
  \<^verbatim>\<open>trades.empty()\<close> and the push of the event, or it has left \<^verbatim>\<open>run()\<close>.
\<close>

datatype WorkerPc = AtLoopTest | AtPop | AtAddOrder Order | AtPublish "Trade list" | Exited

text \<open>
  A call of \<^verbatim>\<open>shutdown()\<close> stands before the \<^verbatim>\<open>compare_exchange_strong\<close>, before
  \<^verbatim>\<open>inq_.close()\<close>, before \<^verbatim>\<open>worker_.join()\<close>, before \<^verbatim>\<open>outq_.close()\<close>, or has returned.
  The calls are numbered, whatever thread makes them, and several may be under way at
  once.
\<close>

datatype ShutdownPc = NotCalled | ClosingIn | Joining | ClosingOut | Returned

text \<open>
  The last four fields are a history, kept for stating properties and read by no step:
  the call of \<^verbatim>\<open>shutdown()\<close> whose \<^verbatim>\<open>compare_exchange_strong\<close> found \<^verbatim>\<open>running_\<close> true and
  cleared it, the orders \<^verbatim>\<open>inq_.push\<close> accepted (the queue was open), the orders handed
  to \<^verbatim>\<open>add_order\<close>, and the events \<^verbatim>\<open>outq_.push\<close> accepted, each in order.
\<close>

record AsyncMatchingEngine =
  eng_book :: OrderBook
  eng_inq :: "Order ConcurrentQueue"
  eng_outq :: "EngineEvent ConcurrentQueue"
  eng_running :: bool
  worker_pc :: WorkerPc
  shutdown_pc :: "nat \<Rightarrow> ShutdownPc"
  cas_winner :: "nat option"
  accepted :: "Order list"
  processed :: "Order list"
  published :: "EngineEvent list"

text \<open>The constructor: \<^verbatim>\<open>running_(true)\<close>, and the worker thread started on \<^verbatim>\<open>run()\<close>.\<close>

definition start_engine :: AsyncMatchingEngine where
  "start_engine =
     \<lparr>eng_book = empty_book, eng_inq = new_queue, eng_outq = new_queue, eng_running = True,
      worker_pc = AtLoopTest, shutdown_pc = (\<lambda>k. NotCalled), cas_winner = None,
      accepted = [], processed = [], published = []\<rparr>"

text \<open>\<^verbatim>\<open>submit(o)\<close> is \<^verbatim>\<open>inq_.push(o)\<close>.\<close>

definition submit :: "Order \<Rightarrow> AsyncMatchingEngine \<Rightarrow> AsyncMatchingEngine" where
  "submit ord e =
     e\<lparr>eng_inq := push ord (eng_inq e),
       accepted := (if cq_closed (eng_inq e) then accepted e else accepted e @ [ord])\<rparr>"

text \<open>One step of \<^verbatim>\<open>run()\<close>; \<open>None\<close> when the worker is blocked in \<^verbatim>\<open>pop\<close> or has left.\<close>

fun worker_step :: "AsyncMatchingEngine \<Rightarrow> AsyncMatchingEngine option" where
  "worker_step e =
     (case worker_pc e of
        AtLoopTest \<Rightarrow> Some (e\<lparr>worker_pc := (if eng_running e then AtPop else Exited)\<rparr>)
      | AtPop \<Rightarrow>
          (case pop (eng_inq e) of
             None \<Rightarrow> None
           | Some (None, inq') \<Rightarrow> Some (e\<lparr>worker_pc := Exited\<rparr>)
           | Some (Some ord, inq') \<Rightarrow> Some (e\<lparr>eng_inq := inq', worker_pc := AtAddOrder ord\<rparr>))
      | AtAddOrder ord \<Rightarrow>
          (case add_order ord (eng_book e) of
             (trades, book') \<Rightarrow>
               Some (e\<lparr>eng_book := book', worker_pc := AtPublish trades,
                       processed := processed e @ [ord]\<rparr>))
      | AtPublish trades \<Rightarrow>
          (if trades \<noteq> [] then
             Some (e\<lparr>eng_outq := push \<lparr>ev_type = TradeBatch, ev_trades = trades\<rparr> (eng_outq e),
                     published :=
                       (if cq_closed (eng_outq e) then published e
                        else published e @ [\<lparr>ev_type = TradeBatch, ev_trades = trades\<rparr>]),
                     worker_pc := AtLoopTest\<rparr>)
           else Some (e\<lparr>worker_pc := AtLoopTest\<rparr>))
      | Exited \<Rightarrow> None)"

text \<open>
  One step of call \<open>k\<close> of \<^verbatim>\<open>shutdown()\<close>. The call whose \<^verbatim>\<open>compare_exchange_strong\<close> finds
  \<^verbatim>\<open>running_\<close> true clears it and goes on into the body; a call that finds it false
  returns at once. In the body \<^verbatim>\<open>worker_.joinable()\<close> holds, the worker being started by
  the constructor and joined nowhere else. The step is \<open>None\<close> when the call waits in
  \<^verbatim>\<open>join\<close> for a worker that has not left \<^verbatim>\<open>run()\<close>, or has returned.
\<close>

fun shutdown_step :: "nat \<Rightarrow> AsyncMatchingEngine \<Rightarrow> AsyncMatchingEngine option" where
  "shutdown_step k e =
     (case shutdown_pc e k of
        NotCalled \<Rightarrow>
          (if eng_running e then
             Some (e\<lparr>eng_running := False, shutdown_pc := (shutdown_pc e)(k := ClosingIn),
                     cas_winner := Some k\<rparr>)
           else Some (e\<lparr>shutdown_pc := (shutdown_pc e)(k := Returned)\<rparr>))
      | ClosingIn \<Rightarrow>
          Some (e\<lparr>eng_inq := close (eng_inq e), shutdown_pc := (shutdown_pc e)(k := Joining)\<rparr>)
      | Joining \<Rightarrow>
          (if worker_pc e = Exited then Some (e\<lparr>shutdown_pc := (shutdown_pc e)(k := ClosingOut)\<rparr>)
           else None)
      | ClosingOut \<Rightarrow>
          Some (e\<lparr>eng_outq := close (eng_outq e), shutdown_pc := (shutdown_pc e)(k := Returned)\<rparr>)
      | Returned \<Rightarrow> None)"

definition call_pc :: "nat \<Rightarrow> AsyncMatchingEngine \<Rightarrow> ShutdownPc" where
  "call_pc k e = shutdown_pc e k"

text \<open>\<^verbatim>\<open>poll_event\<close> is \<^verbatim>\<open>outq_.try_pop\<close>, \<^verbatim>\<open>wait_event\<close> is \<^verbatim>\<open>outq_.pop\<close>.\<close>

datatype Action = Submit Order | Worker | Shutdown nat | Poll | Wait

fun step :: "Action \<Rightarrow> AsyncMatchingEngine \<Rightarrow> AsyncMatchingEngine option" where
  "step (Submit ord) e = Some (submit ord e)"
| "step Worker e = worker_step e"
| "step (Shutdown k) e = shutdown_step k e"
| "step Poll e = Some (e\<lparr>eng_outq := snd (try_pop (eng_outq e))\<rparr>)"
| "step Wait e =
     (case pop (eng_outq e) of None \<Rightarrow> None | Some (ev, outq') \<Rightarrow> Some (e\<lparr>eng_outq := outq'\<rparr>))"

text \<open>A schedule is a list of actions; it runs as long as each action can take its step.\<close>

fun exec :: "Action list \<Rightarrow> AsyncMatchingEngine \<Rightarrow> AsyncMatchingEngine option" where
  "exec [] e = Some e"
| "exec (a # as) e = (case step a e of None \<Rightarrow> None | Some e' \<Rightarrow> exec as e')"

fun in_flight :: "WorkerPc \<Rightarrow> Order list" where
  "in_flight (AtAddOrder ord) = [ord]"
| "in_flight pc = []"

text \<open>
  What the places of the calls of \<^verbatim>\<open>shutdown()\<close> tell, as a property of \<^verbatim>\<open>running_\<close>, of
  the call that cleared it, of the places of all calls, of whether the worker has left
  \<^verbatim>\<open>run()\<close> and of whether each queue is closed: \<^verbatim>\<open>running_\<close> is true as long as no call
  has cleared it; only the call that cleared it is in the body of \<^verbatim>\<open>shutdown()\<close>; and the
  place of that call tells what it has done so far.
\<close>

definition shutdown_inv ::
  "bool \<Rightarrow> nat option \<Rightarrow> (nat \<Rightarrow> ShutdownPc) \<Rightarrow> bool \<Rightarrow> bool \<Rightarrow> bool \<Rightarrow> bool" where
  "shutdown_inv running winner pc exited in_closed out_closed \<longleftrightarrow>
     (running \<longleftrightarrow> winner = None) \<and>
     (\<forall>k. pc k = ClosingIn \<or> pc k = Joining \<or> pc k = ClosingOut \<longrightarrow> winner = Some k) \<and>
     (\<forall>k. winner = Some k \<longrightarrow>
        pc k \<noteq> NotCalled \<and>
        (pc k = ClosingOut \<or> pc k = Returned \<longrightarrow> exited) \<and>
        (pc k = Joining \<or> pc k = ClosingOut \<or> pc k = Returned \<longrightarrow> in_closed) \<and>
        (pc k = Returned \<longrightarrow> out_closed))"

text \<open>
  What holds in every state the engine reaches: the accepted orders are, in order, those
  processed, the one the worker holds, and those still queued; and the book is the result
  of \<^verbatim>\<open>add_order\<close> on the processed orders in order.
\<close>

definition queue_inv :: "AsyncMatchingEngine \<Rightarrow> bool" where
  "queue_inv e \<longleftrightarrow>
     accepted e = processed e @ in_flight (worker_pc e) @ cq_q (eng_inq e) \<and>
     eng_book e = snd (run (map Add (processed e)) empty_book)"

definition engine_inv :: "AsyncMatchingEngine \<Rightarrow> bool" where
  "engine_inv e \<longleftrightarrow>
     queue_inv e \<and>
     shutdown_inv (eng_running e) (cas_winner e) (shutdown_pc e) (worker_pc e = Exited)
       (cq_closed (eng_inq e)) (cq_closed (eng_outq e))"

lemma shutdown_inv_start: "shutdown_inv True None (\<lambda>k. NotCalled) exited in_closed out_closed"
  by (simp add: shutdown_inv_def)

lemma shutdown_inv_cas_won:
  "shutdown_inv True winner pc exited in_closed out_closed \<Longrightarrow> pc k = NotCalled \<Longrightarrow>
   shutdown_inv False (Some k) (pc(k := ClosingIn)) exited in_closed out_closed"
  unfolding shutdown_inv_def by (auto split: if_splits)

lemma shutdown_inv_cas_lost:
  "shutdown_inv False winner pc exited in_closed out_closed \<Longrightarrow> pc k = NotCalled \<Longrightarrow>
   shutdown_inv False winner (pc(k := Returned)) exited in_closed out_closed"
  unfolding shutdown_inv_def by (auto split: if_splits)

lemma shutdown_inv_close_in:
  "shutdown_inv running winner pc exited in_closed out_closed \<Longrightarrow> pc k = ClosingIn \<Longrightarrow>
   shutdown_inv running winner (pc(k := Joining)) exited True out_closed"
  unfolding shutdown_inv_def by (auto split: if_splits)

lemma shutdown_inv_join:
  "shutdown_inv running winner pc True in_closed out_closed \<Longrightarrow> pc k = Joining \<Longrightarrow>
   shutdown_inv running winner (pc(k := ClosingOut)) True in_closed out_closed"
  unfolding shutdown_inv_def by (auto split: if_splits)

lemma shutdown_inv_close_out:
  "shutdown_inv running winner pc exited in_closed out_closed \<Longrightarrow> pc k = ClosingOut \<Longrightarrow>
   shutdown_inv running winner (pc(k := Returned)) exited in_closed True"
  unfolding shutdown_inv_def by (auto split: if_splits)

lemma shutdown_inv_worker:
  "shutdown_inv running winner pc exited in_closed out_closed \<Longrightarrow> (exited \<Longrightarrow> exited') \<Longrightarrow>
   shutdown_inv running winner pc exited' in_closed out_closed"
  unfolding shutdown_inv_def by blast

lemma shutdown_inv_returned:
  assumes "shutdown_inv running winner pc exited in_closed out_closed"
    and "winner = Some k" and "pc k = Returned"
  shows "\<not> running \<and> exited \<and> in_closed \<and> out_closed \<and> (\<forall>j. pc j = NotCalled \<or> pc j = Returned)"
proof -
  have "pc j = NotCalled \<or> pc j = Returned" for j
    using assms unfolding shutdown_inv_def by (cases "pc j") auto
  with assms show ?thesis unfolding shutdown_inv_def by auto
qed

lemma start_engine_inv: "engine_inv start_engine"
  by (simp add: engine_inv_def queue_inv_def start_engine_def new_queue_def shutdown_inv_start)

lemma push_keeps_closed: "cq_closed (push v s) = cq_closed s"
  by (simp add: push_def)

lemma submit_inv:
  assumes "engine_inv e"
  shows "engine_inv (submit ord e)"
proof -
  from assms have "queue_inv (submit ord e)"
    unfolding engine_inv_def queue_inv_def submit_def by (simp add: push_def)
  moreover from assms
  have "shutdown_inv (eng_running (submit ord e)) (cas_winner (submit ord e))
      (shutdown_pc (submit ord e)) (worker_pc (submit ord e) = Exited)
      (cq_closed (eng_inq (submit ord e))) (cq_closed (eng_outq (submit ord e)))"
    unfolding engine_inv_def submit_def by (simp add: push_keeps_closed)
  ultimately show ?thesis by (simp add: engine_inv_def)
qed

lemma worker_step_queue_inv:
  assumes inv: "queue_inv e" and st: "worker_step e = Some e'"
  shows "queue_inv e'"
proof (cases "worker_pc e")
  case AtLoopTest
  with st have e': "e' = e\<lparr>worker_pc := (if eng_running e then AtPop else Exited)\<rparr>" by simp
  from inv AtLoopTest show ?thesis unfolding queue_inv_def e' by simp
next
  case AtPop
  show ?thesis
  proof (cases "cq_q (eng_inq e)")
    case Nil
    with st AtPop have e': "e' = e\<lparr>worker_pc := Exited\<rparr>"
      by (simp add: pop_def split: if_splits)
    from inv AtPop Nil show ?thesis unfolding queue_inv_def e' by simp
  next
    case (Cons ord rest)
    with st AtPop have e': "e' = e\<lparr>eng_inq := (eng_inq e)\<lparr>cq_q := rest\<rparr>, worker_pc := AtAddOrder ord\<rparr>"
      by (simp add: pop_def)
    from inv AtPop Cons show ?thesis unfolding queue_inv_def e' by simp
  qed
next
  case (AtAddOrder ord)
  with st have e': "e' = e\<lparr>eng_book := snd (add_order ord (eng_book e)),
      worker_pc := AtPublish (fst (add_order ord (eng_book e))),
      processed := processed e @ [ord]\<rparr>"
    by (simp add: split_beta)
  from inv have "snd (run (map Add (processed e @ [ord])) empty_book)
      = snd (add_order ord (eng_book e))"
    by (simp add: queue_inv_def run_snoc apply_op_Add del: apply_op.simps)
  with inv AtAddOrder show ?thesis unfolding queue_inv_def e' by simp
next
  case (AtPublish trades)
  show ?thesis
  proof (cases "trades = []")
    case True
    with st AtPublish have e': "e' = e\<lparr>worker_pc := AtLoopTest\<rparr>" by simp
    from inv AtPublish show ?thesis unfolding queue_inv_def e' by simp
  next
    case False
    with st AtPublish have e': "e' = e\<lparr>eng_outq := push \<lparr>ev_type = TradeBatch, ev_trades = trades\<rparr> (eng_outq e),
        published := (if cq_closed (eng_outq e) then published e
                      else published e @ [\<lparr>ev_type = TradeBatch, ev_trades = trades\<rparr>]),
        worker_pc := AtLoopTest\<rparr>"
      by simp
    from inv AtPublish show ?thesis unfolding queue_inv_def e' by (simp add: push_def)
  qed
next
  case Exited
  with st show ?thesis by simp
qed

lemma worker_step_frame:
  assumes st: "worker_step e = Some e'"
  shows "eng_running e' = eng_running e \<and> cas_winner e' = cas_winner e \<and>
     shutdown_pc e' = shutdown_pc e \<and> worker_pc e \<noteq> Exited \<and>
     cq_closed (eng_inq e') = cq_closed (eng_inq e) \<and>
     cq_closed (eng_outq e') = cq_closed (eng_outq e)"
proof (cases "worker_pc e")
  case AtLoopTest
  with st have e': "e' = e\<lparr>worker_pc := (if eng_running e then AtPop else Exited)\<rparr>" by simp
  from AtLoopTest show ?thesis unfolding e' by simp
next
  case AtPop
  show ?thesis
  proof (cases "cq_q (eng_inq e)")
    case Nil
    with st AtPop have e': "e' = e\<lparr>worker_pc := Exited\<rparr>"
      by (simp add: pop_def split: if_splits)
    from AtPop show ?thesis unfolding e' by simp
  next
    case (Cons ord rest)
    with st AtPop have e': "e' = e\<lparr>eng_inq := (eng_inq e)\<lparr>cq_q := rest\<rparr>, worker_pc := AtAddOrder ord\<rparr>"
      by (simp add: pop_def)
    from AtPop show ?thesis unfolding e' by simp
  qed
next
  case (AtAddOrder ord)
  with st have e': "e' = e\<lparr>eng_book := snd (add_order ord (eng_book e)),
      worker_pc := AtPublish (fst (add_order ord (eng_book e))),
      processed := processed e @ [ord]\<rparr>"
    by (simp add: split_beta)
  from AtAddOrder show ?thesis unfolding e' by simp
next
  case (AtPublish trades)
  show ?thesis
  proof (cases "trades = []")
    case True
    with st AtPublish have e': "e' = e\<lparr>worker_pc := AtLoopTest\<rparr>" by simp
    from AtPublish show ?thesis unfolding e' by simp
  next
    case False
    with st AtPublish have e': "e' = e\<lparr>eng_outq := push \<lparr>ev_type = TradeBatch, ev_trades = trades\<rparr> (eng_outq e),
        published := (if cq_closed (eng_outq e) then published e
                      else published e @ [\<lparr>ev_type = TradeBatch, ev_trades = trades\<rparr>]),
        worker_pc := AtLoopTest\<rparr>"
      by simp
    from AtPublish show ?thesis unfolding e' by (simp add: push_def)
  qed
next
  case Exited
  with st show ?thesis by simp
qed

lemma worker_step_inv:
  assumes inv: "engine_inv e" and st: "worker_step e = Some e'"
  shows "engine_inv e'"
proof -
  from inv have q: "queue_inv e"
    and s: "shutdown_inv (eng_running e) (cas_winner e) (shutdown_pc e) (worker_pc e = Exited)
       (cq_closed (eng_inq e)) (cq_closed (eng_outq e))"
    by (simp_all add: engine_inv_def)
  note f = worker_step_frame [OF st]
  from f have "worker_pc e = Exited \<Longrightarrow> worker_pc e' = Exited" by simp
  with s have "shutdown_inv (eng_running e) (cas_winner e) (shutdown_pc e) (worker_pc e' = Exited)
       (cq_closed (eng_inq e)) (cq_closed (eng_outq e))"
    by (rule shutdown_inv_worker)
  with f worker_step_queue_inv [OF q st] show ?thesis by (simp add: engine_inv_def)
qed

lemma shutdown_step_inv:
  assumes inv: "engine_inv e" and st: "shutdown_step k e = Some e'"
  shows "engine_inv e'"
proof -
  from inv have q: "queue_inv e"
    and s: "shutdown_inv (eng_running e) (cas_winner e) (shutdown_pc e) (worker_pc e = Exited)
       (cq_closed (eng_inq e)) (cq_closed (eng_outq e))"
    by (simp_all add: engine_inv_def)
  show ?thesis
  proof (cases "shutdown_pc e k")
    case NotCalled
    show ?thesis
    proof (cases "eng_running e")
      case True
      with st NotCalled have e': "e' = e\<lparr>eng_running := False,
          shutdown_pc := (shutdown_pc e)(k := ClosingIn), cas_winner := Some k\<rparr>"
        by simp
      from s True have "shutdown_inv True (cas_winner e) (shutdown_pc e) (worker_pc e = Exited)
         (cq_closed (eng_inq e)) (cq_closed (eng_outq e))"
        by simp
      from shutdown_inv_cas_won [OF this NotCalled] q show ?thesis
        unfolding engine_inv_def queue_inv_def e' by simp
    next
      case False
      with st NotCalled have e': "e' = e\<lparr>shutdown_pc := (shutdown_pc e)(k := Returned)\<rparr>" by simp
      from s False have "shutdown_inv False (cas_winner e) (shutdown_pc e) (worker_pc e = Exited)
         (cq_closed (eng_inq e)) (cq_closed (eng_outq e))"
        by simp
      from shutdown_inv_cas_lost [OF this NotCalled] q False show ?thesis
        unfolding engine_inv_def queue_inv_def e' by simp
    qed
  next
    case ClosingIn
    with st have e': "e' = e\<lparr>eng_inq := close (eng_inq e),
        shutdown_pc := (shutdown_pc e)(k := Joining)\<rparr>"
      by simp
    from shutdown_inv_close_in [OF s ClosingIn] q show ?thesis
      unfolding engine_inv_def queue_inv_def e' by (simp add: close_def)
  next
    case Joining
    with st have ex: "worker_pc e = Exited"
      and e': "e' = e\<lparr>shutdown_pc := (shutdown_pc e)(k := ClosingOut)\<rparr>"
      by (simp_all split: if_splits)
    from s ex have "shutdown_inv (eng_running e) (cas_winner e) (shutdown_pc e) True
       (cq_closed (eng_inq e)) (cq_closed (eng_outq e))"
      by simp
    from shutdown_inv_join [OF this Joining] q ex show ?thesis
      unfolding engine_inv_def queue_inv_def e' by simp
  next
    case ClosingOut
    with st have e': "e' = e\<lparr>eng_outq := close (eng_outq e),
        shutdown_pc := (shutdown_pc e)(k := Returned)\<rparr>"
      by simp
    from shutdown_inv_close_out [OF s ClosingOut] q show ?thesis
      unfolding engine_inv_def queue_inv_def e' by (simp add: close_def)
  next
    case Returned
    with st show ?thesis by simp
  qed
qed

lemma try_pop_closed: "cq_closed (snd (try_pop s)) = cq_closed s"
  by (simp add: try_pop_def split: list.splits)

lemma pop_closed: "pop s = Some (v, s') \<Longrightarrow> cq_closed s' = cq_closed s"
  by (auto simp: pop_def split: if_splits list.splits)

lemma step_inv:
  assumes inv: "engine_inv e" and st: "step a e = Some e'"
  shows "engine_inv e'"
proof (cases a)
  case (Submit ord)
  with st submit_inv [OF inv] show ?thesis by auto
next
  case Worker
  with st worker_step_inv [OF inv] show ?thesis by simp
next
  case (Shutdown k)
  with st shutdown_step_inv [OF inv] show ?thesis by simp
next
  case Poll
  with st have e': "e' = e\<lparr>eng_outq := snd (try_pop (eng_outq e))\<rparr>" by simp
  from inv show ?thesis unfolding engine_inv_def queue_inv_def e' by (simp add: try_pop_closed)
next
  case Wait
  with st obtain ev outq' where p: "pop (eng_outq e) = Some (ev, outq')"
    and e': "e' = e\<lparr>eng_outq := outq'\<rparr>"
    by (auto split: option.splits)
  from inv pop_closed [OF p] show ?thesis unfolding engine_inv_def queue_inv_def e' by simp
qed

lemma exec_inv: "engine_inv e \<Longrightarrow> exec tr e = Some e' \<Longrightarrow> engine_inv e'"
proof (induction tr arbitrary: e)
  case Nil
  then show ?case by simp
next
  case (Cons a tr)
  from Cons.prems(2) obtain e1 where s: "step a e = Some e1" and r: "exec tr e1 = Some e'"
    by (auto split: option.splits)
  from Cons.IH [OF step_inv [OF Cons.prems(1) s] r] show ?case .
qed

text \<open>
  Once the call of \<^verbatim>\<open>shutdown()\<close> that cleared \<^verbatim>\<open>running_\<close> has returned, only the
  consumers change anything, and later calls of \<^verbatim>\<open>shutdown()\<close> return at once.
\<close>

definition stopped :: "AsyncMatchingEngine \<Rightarrow> bool" where
  "stopped e \<longleftrightarrow>
     \<not> eng_running e \<and> worker_pc e = Exited \<and> cq_closed (eng_inq e) \<and>
     cq_closed (eng_outq e) \<and> (\<forall>k. shutdown_pc e k = NotCalled \<or> shutdown_pc e k = Returned)"

lemma step_stopped:
  assumes "stopped e" and "step a e = Some e'"
  shows "stopped e' \<and> processed e' = processed e \<and> published e' = published e \<and>
     eng_book e' = eng_book e \<and> accepted e' = accepted e \<and> eng_inq e' = eng_inq e"
proof (cases a)
  case (Submit ord)
  with assms(2) have e': "e' = submit ord e" by simp
  from assms(1) show ?thesis unfolding stopped_def e' submit_def by (simp add: push_def)
next
  case Worker
  with assms show ?thesis by (simp add: stopped_def)
next
  case (Shutdown k)
  from assms(1) have pc: "shutdown_pc e k = NotCalled \<or> shutdown_pc e k = Returned"
    and nr: "\<not> eng_running e"
    by (simp_all add: stopped_def)
  with assms(2) Shutdown have e': "e' = e\<lparr>shutdown_pc := (shutdown_pc e)(k := Returned)\<rparr>"
    by auto
  from assms(1) show ?thesis unfolding stopped_def e' by simp
next
  case Poll
  with assms(2) have e': "e' = e\<lparr>eng_outq := snd (try_pop (eng_outq e))\<rparr>" by simp
  from assms(1) show ?thesis unfolding stopped_def e' by (simp add: try_pop_closed)
next
  case Wait
  with assms(2) obtain ev outq' where p: "pop (eng_outq e) = Some (ev, outq')"
    and e': "e' = e\<lparr>eng_outq := outq'\<rparr>"
    by (auto split: option.splits)
  from assms(1) pop_closed [OF p] show ?thesis unfolding stopped_def e' by simp
qed

lemma exec_stopped:
  "stopped e \<Longrightarrow> exec tr e = Some e' \<Longrightarrow>
   processed e' = processed e \<and> published e' = published e \<and> eng_book e' = eng_book e \<and>
   accepted e' = accepted e \<and> eng_inq e' = eng_inq e"
proof (induction tr arbitrary: e)
  case Nil
  then show ?case by simp
next
  case (Cons a tr)
  from Cons.prems(2) obtain e1 where s: "step a e = Some e1" and r: "exec tr e1 = Some e'"
    by (auto split: option.splits)
  from step_stopped [OF Cons.prems(1) s] Cons.IH [OF _ r] show ?case by simp
qed

lemma inv_stopped:
  assumes inv: "engine_inv e" and w: "cas_winner e = Some k" and r: "shutdown_pc e k = Returned"
  shows "stopped e"
proof -
  from inv have "shutdown_inv (eng_running e) (cas_winner e) (shutdown_pc e) (worker_pc e = Exited)
       (cq_closed (eng_inq e)) (cq_closed (eng_outq e))"
    by (simp add: engine_inv_def)
  from shutdown_inv_returned [OF this w r] show ?thesis by (simp add: stopped_def)
qed

text \<open>The two ways out of \<^verbatim>\<open>run()\<close>.\<close>

lemma worker_exits:
  assumes st: "worker_step e = Some e'" and ex: "worker_pc e' = Exited"
  shows "worker_pc e = AtLoopTest \<and> \<not> eng_running e \<or>
     worker_pc e = AtPop \<and> cq_closed (eng_inq e) \<and> cq_q (eng_inq e) = []"
proof (cases "worker_pc e")
  case AtLoopTest
  with st have "e' = e\<lparr>worker_pc := (if eng_running e then AtPop else Exited)\<rparr>" by simp
  with ex AtLoopTest show ?thesis by (simp split: if_splits)
next
  case AtPop
  show ?thesis
  proof (cases "cq_q (eng_inq e)")
    case Nil
    with st AtPop show ?thesis by (simp add: pop_def split: if_splits)
  next
    case (Cons ord rest)
    with st AtPop have "e' = e\<lparr>eng_inq := (eng_inq e)\<lparr>cq_q := rest\<rparr>, worker_pc := AtAddOrder ord\<rparr>"
      by (simp add: pop_def)
    with ex show ?thesis by simp
  qed
next
  case (AtAddOrder ord)
  with st have "worker_pc e' = AtPublish (fst (add_order ord (eng_book e)))"
    by (auto simp: split_beta)
  with ex show ?thesis by simp
next
  case (AtPublish trades)
  with st have "worker_pc e' = AtLoopTest" by (auto split: if_splits)
  with ex show ?thesis by simp
next
  case Exited
  with st show ?thesis by simp
qed

text \<open>
  C9. In every state \<open>e\<close> an interleaving of \<^verbatim>\<open>submit\<close>, \<^verbatim>\<open>poll_event\<close>, \<^verbatim>\<open>wait_event\<close>, the
  steps of the worker and the steps of any number of calls of \<^verbatim>\<open>shutdown()\<close> reaches from
  the constructed engine: the worker processes in FIFO order, that is, the orders the
  inbound \<^verbatim>\<open>push\<close> accepted are those processed by the order book, then the one the worker
  holds, then those still queued, and the book is the result of \<^verbatim>\<open>add_order\<close> on the
  processed ones in that order. \<^verbatim>\<open>running_\<close> is false exactly when a call of \<^verbatim>\<open>shutdown()\<close>
  has cleared it. After that call has returned, the worker has left \<^verbatim>\<open>run()\<close>, both queues
  are closed, every accepted order has been processed or is still in the inbound queue, and
  whatever is called afterwards no order is processed, no event is produced and the book
  does not change. The worker leaves \<^verbatim>\<open>run()\<close> only when it reads \<^verbatim>\<open>running_\<close> as false at
  the head of its loop, or when the inbound \<^verbatim>\<open>pop\<close> returns false, the queue being closed
  and empty.
\<close>

theorem shutdown_contract:
  assumes ex: "exec tr start_engine = Some e"
  shows "accepted e = processed e @ in_flight (worker_pc e) @ cq_q (eng_inq e) \<and>
     eng_book e = snd (run (map Add (processed e)) empty_book) \<and>
     (eng_running e \<longleftrightarrow> cas_winner e = None) \<and>
     (\<forall>k. cas_winner e = Some k \<and> shutdown_pc e k = Returned \<longrightarrow>
        worker_pc e = Exited \<and> cq_closed (eng_inq e) \<and> cq_closed (eng_outq e) \<and>
        accepted e = processed e @ cq_q (eng_inq e) \<and>
        (\<forall>tr' e'. exec tr' e = Some e' \<longrightarrow>
           processed e' = processed e \<and> published e' = published e \<and>
           eng_book e' = eng_book e)) \<and>
     (\<forall>e'. step Worker e = Some e' \<and> worker_pc e' = Exited \<longrightarrow>
        worker_pc e = AtLoopTest \<and> \<not> eng_running e \<or>
        worker_pc e = AtPop \<and> cq_closed (eng_inq e) \<and> cq_q (eng_inq e) = [])"
proof -
  from exec_inv [OF start_engine_inv ex] have inv: "engine_inv e" .
  show ?thesis
  proof (intro conjI impI allI)
    from inv show acc: "accepted e = processed e @ in_flight (worker_pc e) @ cq_q (eng_inq e)"
      by (simp add: engine_inv_def queue_inv_def)
    from inv show "eng_book e = snd (run (map Add (processed e)) empty_book)"
      by (simp add: engine_inv_def queue_inv_def)
    from inv show "eng_running e \<longleftrightarrow> cas_winner e = None"
      by (simp add: engine_inv_def shutdown_inv_def)
    {
      fix k
      assume "cas_winner e = Some k \<and> shutdown_pc e k = Returned"
      then have "cas_winner e = Some k" "shutdown_pc e k = Returned" by simp_all
      with inv have st: "stopped e" by (rule inv_stopped)
      then show "worker_pc e = Exited" "cq_closed (eng_inq e)" "cq_closed (eng_outq e)"
        by (simp_all add: stopped_def)
      with acc show "accepted e = processed e @ cq_q (eng_inq e)" by simp
      fix tr' e'
      assume "exec tr' e = Some e'"
      from exec_stopped [OF st this]
      show "processed e' = processed e" "published e' = published e" "eng_book e' = eng_book e"
        by simp_all
    }
    fix e'
    assume "step Worker e = Some e' \<and> worker_pc e' = Exited"
    then have "worker_step e = Some e'" "worker_pc e' = Exited" by simp_all
    then show "worker_pc e = AtLoopTest \<and> \<not> eng_running e \<or>
        worker_pc e = AtPop \<and> cq_closed (eng_inq e) \<and> cq_q (eng_inq e) = []"
      by (rule worker_exits)
  qed
qed

theorem shutdown_contract_witness:
  "(\<exists>e. exec [Worker, Submit (mk 0 1 Sell 101 50), Submit (mk 0 2 Buy 101 30), Worker,
          Shutdown 0, Shutdown 1, Worker, Worker, Worker, Shutdown 0, Shutdown 0, Shutdown 0]
          start_engine = Some e \<and>
       cas_winner e = Some 0 \<and> shutdown_pc e 0 = Returned \<and> \<not> eng_running e \<and>
       worker_pc e = Exited \<and> cq_closed (eng_inq e) \<and> cq_closed (eng_outq e) \<and>
       accepted e = processed e @ cq_q (eng_inq e) \<and>
       eng_book e = snd (run (map Add (processed e)) empty_book) \<and>
       (\<exists>e'. exec [Submit (mk 0 3 Sell 101 5), Poll, Shutdown 2] e = Some e' \<and>
          processed e' = processed e \<and> published e' = published e \<and>
          eng_book e' = eng_book e)) \<and>
     (\<exists>e1 e2. exec [Worker, Submit (mk 0 1 Sell 101 50), Submit (mk 0 2 Buy 101 30), Worker,
          Shutdown 0, Worker, Worker] start_engine = Some e1 \<and>
        step Worker e1 = Some e2 \<and> worker_pc e2 = Exited \<and>
        worker_pc e1 = AtLoopTest \<and> \<not> eng_running e1)"
proof -
  define sched where "sched = [Worker, Submit (mk 0 1 Sell 101 50), Submit (mk 0 2 Buy 101 30),
      Worker, Shutdown 0, Shutdown 1, Worker, Worker, Worker, Shutdown 0, Shutdown 0, Shutdown 0]"
  define pre where "pre = [Worker, Submit (mk 0 1 Sell 101 50), Submit (mk 0 2 Buy 101 30),
      Worker, Shutdown 0, Worker, Worker]"
  define post where "post = [Submit (mk 0 3 Sell 101 5), Poll, Shutdown 2]"
  have "\<exists>e. exec sched start_engine = Some e \<and> cas_winner e = Some 0 \<and>
      shutdown_pc e 0 = Returned \<and> shutdown_pc e 2 = NotCalled"
    unfolding sched_def
    by (simp add: start_engine_def submit_def push_def pop_def close_def new_queue_def mk_def
        add_order_def enqueue_def empty_book_def cross_cons)
  then obtain e where e: "exec sched start_engine = Some e" and w: "cas_winner e = Some 0"
    and r: "shutdown_pc e 0 = Returned" and n: "shutdown_pc e 2 = NotCalled"
    by blast
  note c = shutdown_contract [OF e]
  from c have book: "eng_book e = snd (run (map Add (processed e)) empty_book)"
    by (rule conjunct2 [THEN conjunct1])
  from c have "eng_running e \<longleftrightarrow> cas_winner e = None"
    by (rule conjunct2 [THEN conjunct2, THEN conjunct1])
  with w have nr: "\<not> eng_running e" by simp
  from c have "\<forall>k. cas_winner e = Some k \<and> shutdown_pc e k = Returned \<longrightarrow>
        worker_pc e = Exited \<and> cq_closed (eng_inq e) \<and> cq_closed (eng_outq e) \<and>
        accepted e = processed e @ cq_q (eng_inq e) \<and>
        (\<forall>tr' e'. exec tr' e = Some e' \<longrightarrow>
           processed e' = processed e \<and> published e' = published e \<and>
           eng_book e' = eng_book e)"
    by (rule conjunct2 [THEN conjunct2, THEN conjunct2, THEN conjunct1])
  with w r have ret: "worker_pc e = Exited" "cq_closed (eng_inq e)" "cq_closed (eng_outq e)"
    "accepted e = processed e @ cq_q (eng_inq e)"
    and after: "\<forall>tr' e'. exec tr' e = Some e' \<longrightarrow>
           processed e' = processed e \<and> published e' = published e \<and>
           eng_book e' = eng_book e"
    by blast+
  from nr n have "\<exists>e'. exec post e = Some e'" unfolding post_def by (simp add: submit_def)
  then obtain e' where e': "exec post e = Some e'" by blast
  with after have same: "processed e' = processed e \<and> published e' = published e \<and>
      eng_book e' = eng_book e"
    by blast
  have "\<exists>e1 e2. exec pre start_engine = Some e1 \<and> step Worker e1 = Some e2 \<and>
      worker_pc e2 = Exited \<and> worker_pc e1 \<noteq> AtPop"
    unfolding pre_def
    by (simp add: start_engine_def submit_def push_def pop_def close_def new_queue_def mk_def
        add_order_def enqueue_def empty_book_def cross_cons)
  then obtain e1 e2 where e1: "exec pre start_engine = Some e1"
    and e2: "step Worker e1 = Some e2" "worker_pc e2 = Exited" and pc: "worker_pc e1 \<noteq> AtPop"
    by blast
  from shutdown_contract [OF e1]
  have "\<forall>e'. step Worker e1 = Some e' \<and> worker_pc e' = Exited \<longrightarrow>
        worker_pc e1 = AtLoopTest \<and> \<not> eng_running e1 \<or>
        worker_pc e1 = AtPop \<and> cq_closed (eng_inq e1) \<and> cq_q (eng_inq e1) = []"
    by (rule conjunct2 [THEN conjunct2, THEN conjunct2, THEN conjunct2])
  with e2 pc have out: "worker_pc e1 = AtLoopTest \<and> \<not> eng_running e1" by blast
  from e w r nr ret book e' same have 1: "\<exists>e. exec sched start_engine = Some e \<and>
       cas_winner e = Some 0 \<and> shutdown_pc e 0 = Returned \<and> \<not> eng_running e \<and>
       worker_pc e = Exited \<and> cq_closed (eng_inq e) \<and> cq_closed (eng_outq e) \<and>
       accepted e = processed e @ cq_q (eng_inq e) \<and>
       eng_book e = snd (run (map Add (processed e)) empty_book) \<and>
       (\<exists>e'. exec post e = Some e' \<and>
          processed e' = processed e \<and> published e' = published e \<and>
          eng_book e' = eng_book e)"
    by blast
  from e1 e2 out have 2: "\<exists>e1 e2. exec pre start_engine = Some e1 \<and>
        step Worker e1 = Some e2 \<and> worker_pc e2 = Exited \<and>
        worker_pc e1 = AtLoopTest \<and> \<not> eng_running e1"
    by blast
  from 1 2 show ?thesis unfolding sched_def pre_def post_def by (intro conjI)
qed

text \<open>
  Not every accepted order is processed, and the worker leaves before the inbound queue
  is empty: the worker takes Sell id=1 @101 x50 from the queue, Buy id=2 @101 x30 is
  accepted behind it, call 0 of \<^verbatim>\<open>shutdown()\<close> clears \<^verbatim>\<open>running_\<close>, the worker finishes
  order 1, reads \<^verbatim>\<open>running_\<close> at the head of its loop and leaves, and call 0 returns with
  order 2 accepted, still in the closed inbound queue and never matched against order 1.

  And a call of \<^verbatim>\<open>shutdown()\<close> that finds \<^verbatim>\<open>running_\<close> cleared returns with nothing done:
  when the worker holds order 2 and call 0 has just cleared \<^verbatim>\<open>running_\<close>, call 1 returns
  while the worker is in \<^verbatim>\<open>run()\<close> and both queues are open, and after its return the
  worker processes order 2 and publishes the trade with order 1.
\<close>

theorem shutdown_leaves_accepted_order:
  "map_option (call_pc 0)
      (exec [Worker, Submit (mk 0 1 Sell 101 50), Submit (mk 0 2 Buy 101 30), Worker,
          Shutdown 0, Worker, Worker, Worker, Shutdown 0, Shutdown 0, Shutdown 0]
          start_engine) = Some Returned \<and>
   map_option worker_pc
      (exec [Worker, Submit (mk 0 1 Sell 101 50), Submit (mk 0 2 Buy 101 30), Worker,
          Shutdown 0, Worker, Worker, Worker, Shutdown 0, Shutdown 0, Shutdown 0]
          start_engine) = Some Exited \<and>
   map_option accepted
      (exec [Worker, Submit (mk 0 1 Sell 101 50), Submit (mk 0 2 Buy 101 30), Worker,
          Shutdown 0, Worker, Worker, Worker, Shutdown 0, Shutdown 0, Shutdown 0]
          start_engine) = Some [mk 0 1 Sell 101 50, mk 0 2 Buy 101 30] \<and>
   map_option processed
      (exec [Worker, Submit (mk 0 1 Sell 101 50), Submit (mk 0 2 Buy 101 30), Worker,
          Shutdown 0, Worker, Worker, Worker, Shutdown 0, Shutdown 0, Shutdown 0]
          start_engine) = Some [mk 0 1 Sell 101 50] \<and>
   map_option (cq_q \<circ> eng_inq)
      (exec [Worker, Submit (mk 0 1 Sell 101 50), Submit (mk 0 2 Buy 101 30), Worker,
          Shutdown 0, Worker, Worker, Worker, Shutdown 0, Shutdown 0, Shutdown 0]
          start_engine) = Some [mk 0 2 Buy 101 30] \<and>
   map_option published
      (exec [Worker, Submit (mk 0 1 Sell 101 50), Submit (mk 0 2 Buy 101 30), Worker,
          Shutdown 0, Worker, Worker, Worker, Shutdown 0, Shutdown 0, Shutdown 0]
          start_engine) = Some [] \<and>
   map_option (call_pc 1)
      (exec [Worker, Submit (mk 0 1 Sell 101 50), Submit (mk 0 2 Buy 101 30), Worker, Worker,
          Worker, Worker, Worker, Shutdown 0, Shutdown 1] start_engine) = Some Returned \<and>
   map_option worker_pc
      (exec [Worker, Submit (mk 0 1 Sell 101 50), Submit (mk 0 2 Buy 101 30), Worker, Worker,
          Worker, Worker, Worker, Shutdown 0, Shutdown 1] start_engine)
     = Some (AtAddOrder (mk 0 2 Buy 101 30)) \<and>
   map_option (cq_closed \<circ> eng_inq)
      (exec [Worker, Submit (mk 0 1 Sell 101 50), Submit (mk 0 2 Buy 101 30), Worker, Worker,
          Worker, Worker, Worker, Shutdown 0, Shutdown 1] start_engine) = Some False \<and>
   map_option (cq_closed \<circ> eng_outq)
      (exec [Worker, Submit (mk 0 1 Sell 101 50), Submit (mk 0 2 Buy 101 30), Worker, Worker,
          Worker, Worker, Worker, Shutdown 0, Shutdown 1] start_engine) = Some False \<and>
   map_option processed
      (exec [Worker, Submit (mk 0 1 Sell 101 50), Submit (mk 0 2 Buy 101 30), Worker, Worker,
          Worker, Worker, Worker, Shutdown 0, Shutdown 1] start_engine)
     = Some [mk 0 1 Sell 101 50] \<and>
   map_option published
      (exec [Worker, Submit (mk 0 1 Sell 101 50), Submit (mk 0 2 Buy 101 30), Worker, Worker,
          Worker, Worker, Worker, Shutdown 0, Shutdown 1] start_engine) = Some [] \<and>
   map_option processed
      (exec [Worker, Submit (mk 0 1 Sell 101 50), Submit (mk 0 2 Buy 101 30), Worker, Worker,
          Worker, Worker, Worker, Shutdown 0, Shutdown 1, Worker, Worker] start_engine)
     = Some [mk 0 1 Sell 101 50, mk 0 2 Buy 101 30] \<and>
   map_option published
      (exec [Worker, Submit (mk 0 1 Sell 101 50), Submit (mk 0 2 Buy 101 30), Worker, Worker,
          Worker, Worker, Worker, Shutdown 0, Shutdown 1, Worker, Worker] start_engine)
     = Some [\<lparr>ev_type = TradeBatch,
          ev_trades = [\<lparr>maker_id = 1, taker_id = 2, trade_price = 101, trade_qty = 30\<rparr>]\<rparr>]"
  by (simp add: start_engine_def submit_def push_def pop_def close_def new_queue_def mk_def
      add_order_def enqueue_def empty_book_def cross_cons call_pc_def)

end
